theory Spec2Isabelle
  imports Main "HOL-Library.Multiset" "HOL-Library.List_Lexorder" "HOL-Library.Product_Lexorder"
begin

section \<open>The sliding-tile puzzle of puzzle\_problem.ipynb\<close>

text \<open>
  The notebook keeps a configuration in a two-dimensional numpy array of integers and
  hands it around as the list of its rows (\<^verbatim>\<open>tolist()\<close>). The model is the list of rows.
  The cells of the array are numpy's 64-bit integers; the model holds them as \<^typ>\<open>int\<close>
  and wraps the results of numpy's arithmetic around (\<open>wrap64\<close> below), as numpy does.
  \<^verbatim>\<open>PUZZLE_DIM\<close> is a module constant (5 in the notebook); every function that reads it
  takes it as its first argument \<open>N\<close>.
\<close>

type_synonym grid = "int list list"

type_synonym pos = "nat \<times> nat"

text \<open>\<^verbatim>\<open>action = namedtuple('Action', ['pos1', 'pos2'])\<close>. The coordinates are the
  indices \<^verbatim>\<open>available_actions\<close> computes, which are never negative.\<close>

datatype Action = Action (pos1: pos) (pos2: pos)

datatype error = IndexError

definition PUZZLE_DIM :: nat where
  "PUZZLE_DIM = 5"

text \<open>An array of shape \<open>N \<times> N\<close>.\<close>

definition is_grid :: "nat \<Rightarrow> grid \<Rightarrow> bool" where
  "is_grid N state = (length state = N \<and> list_all (\<lambda>row. length row = N) state)"

text \<open>The invariant of the data model: exactly one zero, and the other cells are a
  permutation of \<open>1 .. N\<^sup>2 - 1\<close>.\<close>

definition invariant :: "nat \<Rightarrow> grid \<Rightarrow> bool" where
  "invariant N state =
     (is_grid N state \<and> count_list (concat state) 0 = 1 \<and>
      mset (filter (\<lambda>v. v \<noteq> 0) (concat state)) = mset (map int [1..<N * N]))"

subsection \<open>Indexing\<close>

text \<open>\<^verbatim>\<open>a[x, y]\<close> raises IndexError outside the array.\<close>

definition getitem :: "grid \<Rightarrow> pos \<Rightarrow> error + int" where
  "getitem a p =
     (case p of (x, y) \<Rightarrow>
        if x < length a \<and> y < length (a ! x) then Inr (a ! x ! y) else Inl IndexError)"

definition setitem :: "grid \<Rightarrow> pos \<Rightarrow> int \<Rightarrow> error + grid" where
  "setitem a p v =
     (case p of (x, y) \<Rightarrow>
        if x < length a \<and> y < length (a ! x) then Inr (a[x := (a ! x)[y := v]])
        else Inl IndexError)"

text \<open>\<^verbatim>\<open>np.where(state == 0)\<close>: the coordinates of the zero cells, in row-major order.\<close>

definition zeros_of_row :: "int list \<Rightarrow> nat list" where
  "zeros_of_row row = filter (\<lambda>y. row ! y = 0) [0..<length row]"

definition where_eq0 :: "grid \<Rightarrow> pos list" where
  "where_eq0 state =
     concat (map (\<lambda>x. map (\<lambda>y. (x, y)) (zeros_of_row (state ! x))) [0..<length state])"

subsection \<open>available\_actions and do\_action\<close>

text \<open>
  \<^verbatim>\<open>x, y = [int(_[0]) for _ in np.where(state == 0)]\<close> takes the first zero cell and
  raises IndexError when there is none. The four tests follow in the order of the source:
  up, down, left, right.
\<close>

definition available_actions :: "nat \<Rightarrow> grid \<Rightarrow> error + Action list" where
  "available_actions N state =
     (case where_eq0 state of
        [] \<Rightarrow> Inl IndexError
      | (x, y) # _ \<Rightarrow>
          Inr ((if x > 0 then [Action (x, y) (x - 1, y)] else []) @
               (if int x < int N - 1 then [Action (x, y) (x + 1, y)] else []) @
               (if y > 0 then [Action (x, y) (x, y - 1)] else []) @
               (if int y < int N - 1 then [Action (x, y) (x, y + 1)] else [])))"

text \<open>
  \<^verbatim>\<open>do_action\<close> copies its argument and writes into the copy. To say that the argument
  is left alone, arrays live in a store: the list of the arrays allocated so far, an
  address being an index into it. \<^verbatim>\<open>state.copy()\<close> allocates a new array.
\<close>

type_synonym addr = nat

type_synonym store = "grid list"

definition array_copy :: "store \<Rightarrow> addr \<Rightarrow> store \<times> addr" where
  "array_copy h a = (h @ [h ! a], length h)"

definition store_getitem :: "store \<Rightarrow> addr \<Rightarrow> pos \<Rightarrow> error + int" where
  "store_getitem h a p = getitem (h ! a) p"

definition store_setitem :: "store \<Rightarrow> addr \<Rightarrow> pos \<Rightarrow> int \<Rightarrow> error + store" where
  "store_setitem h a p v =
     (case setitem (h ! a) p v of Inl e \<Rightarrow> Inl e | Inr g \<Rightarrow> Inr (h[a := g]))"

text \<open>
  \<^verbatim>\<open>new_state[pos1], new_state[pos2] = new_state[pos2], new_state[pos1]\<close>:
  the right-hand side is read first (\<open>pos2\<close>, then \<open>pos1\<close>), then \<open>pos1\<close> and \<open>pos2\<close>
  are written in this order. The result is the address of the copy.
\<close>

definition do_action_on :: "store \<Rightarrow> addr \<Rightarrow> Action \<Rightarrow> error + store \<times> addr" where
  "do_action_on h state act =
     (case array_copy h state of (h0, new_state) \<Rightarrow>
        (case store_getitem h0 new_state (pos2 act) of
           Inl e \<Rightarrow> Inl e
         | Inr v2 \<Rightarrow>
             (case store_getitem h0 new_state (pos1 act) of
                Inl e \<Rightarrow> Inl e
              | Inr v1 \<Rightarrow>
                  (case store_setitem h0 new_state (pos1 act) v2 of
                     Inl e \<Rightarrow> Inl e
                   | Inr h1 \<Rightarrow>
                       (case store_setitem h1 new_state (pos2 act) v1 of
                          Inl e \<Rightarrow> Inl e
                        | Inr h2 \<Rightarrow> Inr (h2, new_state))))))"

text \<open>The search hands configurations around as values (\<^verbatim>\<open>tolist()\<close>,
  \<^verbatim>\<open>np.array(current_state)\<close>): \<^verbatim>\<open>do_action\<close> from a configuration to the one it
  returns, in a store that holds the argument alone.\<close>

definition do_action :: "grid \<Rightarrow> Action \<Rightarrow> error + grid" where
  "do_action state act =
     (case do_action_on [state] 0 act of Inl e \<Rightarrow> Inl e | Inr (h, new_state) \<Rightarrow> Inr (h ! new_state))"

subsection \<open>numpy's 64-bit arithmetic\<close>

text \<open>
  \<^verbatim>\<open>state[x, y]\<close> is a numpy \<^verbatim>\<open>int64\<close>. An operation between such a value and a Python
  integer, or between two of them, is done in 64 bits and wraps around in two's
  complement. Python's own integers (\<^verbatim>\<open>x\<close>, \<^verbatim>\<open>y\<close>, \<^verbatim>\<open>misplacement_count\<close>, \<^verbatim>\<open>g_cost\<close>)
  are unbounded. \<^verbatim>\<open>divmod\<close> rounds down, as \<open>div\<close> and \<open>mod\<close> do.
\<close>

definition wrap64 :: "int \<Rightarrow> int" where
  "wrap64 i = (i + 2 ^ 63) mod 2 ^ 64 - 2 ^ 63"

definition int64_add :: "int \<Rightarrow> int \<Rightarrow> int" where
  "int64_add a b = wrap64 (a + b)"

definition int64_sub :: "int \<Rightarrow> int \<Rightarrow> int" where
  "int64_sub a b = wrap64 (a - b)"

definition int64_abs :: "int \<Rightarrow> int" where
  "int64_abs a = wrap64 \<bar>a\<bar>"

subsection \<open>heuristic\<close>

text \<open>A \<^verbatim>\<open>for\<close> loop whose body may raise: the first error ends the loop.\<close>

fun for_each :: "('a \<Rightarrow> 's \<Rightarrow> error + 's) \<Rightarrow> 'a list \<Rightarrow> 's \<Rightarrow> error + 's" where
  "for_each body [] s = Inr s"
| "for_each body (x # xs) s =
     (case body x s of Inl e \<Rightarrow> Inl e | Inr s' \<Rightarrow> for_each body xs s')"

text \<open>The body of the inner loop, on the pair (manhattan\_distance, misplacement\_count).
  The goal is read only under a non-zero cell. The goal position of a value is computed
  here with \<^verbatim>\<open>divmod(value - 1, PUZZLE_DIM)\<close>; the table \<^verbatim>\<open>goal_positions\<close> of the notebook
  holds the same pairs and is not read.\<close>

definition heuristic_cell :: "nat \<Rightarrow> grid \<Rightarrow> grid \<Rightarrow> nat \<Rightarrow> nat \<Rightarrow> int \<times> int \<Rightarrow> error + int \<times> int" where
  "heuristic_cell N state goal x y acc =
     (case acc of (manhattan_distance, misplacement_count) \<Rightarrow>
        (case getitem state (x, y) of
           Inl e \<Rightarrow> Inl e
         | Inr v \<Rightarrow>
             if v \<noteq> 0 then
               (let goal_x = int64_sub v 1 div int N;
                    goal_y = int64_sub v 1 mod int N;
                    manhattan_distance' =
                      int64_add manhattan_distance
                        (int64_add (int64_abs (int64_sub (int x) goal_x))
                                   (int64_abs (int64_sub (int y) goal_y)))
                in (case getitem goal (x, y) of
                      Inl e \<Rightarrow> Inl e
                    | Inr gv \<Rightarrow>
                        if gv \<noteq> v then Inr (manhattan_distance', misplacement_count + 1)
                        else Inr (manhattan_distance', misplacement_count)))
             else Inr (manhattan_distance, misplacement_count)))"

definition heuristic :: "nat \<Rightarrow> grid \<Rightarrow> grid \<Rightarrow> error + int" where
  "heuristic N state goal =
     (case for_each (\<lambda>x. for_each (\<lambda>y. heuristic_cell N state goal x y) [0..<N]) [0..<N] (0, 0) of
        Inl e \<Rightarrow> Inl e
      | Inr (manhattan_distance, misplacement_count) \<Rightarrow>
          Inr (int64_add manhattan_distance (2 * misplacement_count)))"

text \<open>The value of the heuristic as the specification words it: over the non-blank cells
  of the \<open>N \<times> N\<close> coordinates, the sum of the distances to the goal position of the
  cell's value, plus twice the number of those cells that differ from the goal's cell.\<close>

definition nonblank_cells :: "nat \<Rightarrow> grid \<Rightarrow> pos list" where
  "nonblank_cells N c = filter (\<lambda>(x, y). c ! x ! y \<noteq> 0) (List.product [0..<N] [0..<N])"

definition heuristic_spec :: "nat \<Rightarrow> grid \<Rightarrow> grid \<Rightarrow> int" where
  "heuristic_spec N c g =
     (\<Sum>(x, y) \<leftarrow> nonblank_cells N c.
        \<bar>int x - (c ! x ! y - 1) div int N\<bar> + \<bar>int y - (c ! x ! y - 1) mod int N\<bar>) +
     2 * int (length (filter (\<lambda>(x, y). c ! x ! y \<noteq> g ! x ! y) (nonblank_cells N c)))"

subsection \<open>solve\_puzzle\<close>

text \<open>
  A search node is the tuple \<^verbatim>\<open>(f_cost, state, path, g_cost)\<close>. Python compares tuples
  and lists lexicographically, which is the order of \<^typ>\<open>int \<times> grid \<times> grid list \<times> int\<close>
  here. \<^verbatim>\<open>heapq\<close> keeps the frontier list arranged as a binary heap; the notebook
  only pushes, pops and tests it for emptiness, and \<^verbatim>\<open>heappop\<close> removes and returns
  the least item, so the model keeps a plain list and pops its least node.
\<close>

type_synonym node = "int \<times> grid \<times> grid list \<times> int"

definition heappush :: "node list \<Rightarrow> node \<Rightarrow> node list" where
  "heappush frontier item = frontier @ [item]"

definition heappop :: "node list \<Rightarrow> error + node \<times> node list" where
  "heappop frontier =
     (if frontier = [] then Inl IndexError
      else (let item = Min (set frontier) in Inr (item, remove1 item frontier)))"

text \<open>
  \<^verbatim>\<open>np.array_equal(np.array(current_state), goal_state)\<close>: same shape and same cells.
  The list of rows of an array without rows is \<^verbatim>\<open>[]\<close>, and \<^verbatim>\<open>np.array([])\<close> has one
  dimension, so its shape is never that of a two-dimensional goal.
\<close>

definition array_equal :: "grid \<Rightarrow> grid \<Rightarrow> bool" where
  "array_equal current_state goal_state = (current_state \<noteq> [] \<and> current_state = goal_state)"

text \<open>\<^verbatim>\<open>tobytes()\<close>: the cells in row-major order.\<close>

definition tobytes :: "grid \<Rightarrow> int list" where
  "tobytes state = concat state"

text \<open>The body of \<^verbatim>\<open>for act in available_actions(current_state)\<close>. \<^verbatim>\<open>g_cost\<close> is a
  Python integer, the number of moves of the path; its sum with the heuristic, a numpy
  integer, is numpy's.\<close>

definition expand_one :: "nat \<Rightarrow> grid \<Rightarrow> grid \<Rightarrow> grid list \<Rightarrow> int \<Rightarrow> Action \<Rightarrow> node list \<Rightarrow> error + node list" where
  "expand_one N goal_state current_state path g_cost act frontier =
     (case do_action current_state act of
        Inl e \<Rightarrow> Inl e
      | Inr new_state \<Rightarrow>
          (let new_g_cost = g_cost + 1 in
           (case heuristic N new_state goal_state of
              Inl e \<Rightarrow> Inl e
            | Inr h \<Rightarrow>
                (let new_f_cost = int64_add new_g_cost h;
                     new_path = path @ [new_state]
                 in Inr (heappush frontier (new_f_cost, new_state, new_path, new_g_cost))))))"

text \<open>One pass through the body of \<^verbatim>\<open>while frontier\<close>: it returns the path, or goes
  on with a frontier and a visited set (after \<^verbatim>\<open>continue\<close>, or at the end of the body).\<close>

datatype flow = Return "grid list" | Continue "node list" "int list set"

definition iteration :: "nat \<Rightarrow> grid \<Rightarrow> node list \<Rightarrow> int list set \<Rightarrow> error + flow" where
  "iteration N goal_state frontier visited =
     (case heappop frontier of
        Inl e \<Rightarrow> Inl e
      | Inr ((f_cost, current_state, path, g_cost), frontier1) \<Rightarrow>
          if array_equal current_state goal_state then Inr (Return path)
          else
            (let state_str = tobytes current_state in
             if state_str \<in> visited then Inr (Continue frontier1 visited)
             else
               (case available_actions N current_state of
                  Inl e \<Rightarrow> Inl e
                | Inr acts \<Rightarrow>
                    (case for_each (expand_one N goal_state current_state path g_cost) acts frontier1 of
                       Inl e \<Rightarrow> Inl e
                     | Inr frontier2 \<Rightarrow> Inr (Continue frontier2 (insert state_str visited))))))"

subsection \<open>Facts about indexing and one pass of the loop\<close>

lemma getitem_Inr:
  "getitem a p = Inr v \<longleftrightarrow> fst p < length a \<and> snd p < length (a ! fst p) \<and> v = a ! fst p ! snd p"
  by (auto simp: getitem_def split: prod.splits)

lemma setitem_Inr:
  "setitem a p v = Inr b \<longleftrightarrow>
     fst p < length a \<and> snd p < length (a ! fst p) \<and> b = a[fst p := (a ! fst p)[snd p := v]]"
  by (auto simp: setitem_def split: prod.splits)

lemma do_action_eq:
  "do_action state act =
     (case getitem state (pos2 act) of
        Inl e \<Rightarrow> Inl e
      | Inr v2 \<Rightarrow>
          (case getitem state (pos1 act) of
             Inl e \<Rightarrow> Inl e
           | Inr v1 \<Rightarrow>
               (case setitem state (pos1 act) v2 of
                  Inl e \<Rightarrow> Inl e
                | Inr new_state \<Rightarrow> setitem new_state (pos2 act) v1)))"
  by (simp add: do_action_def do_action_on_def array_copy_def store_getitem_def store_setitem_def
      split: sum.splits)

lemma nth_nth_in_concat:
  "x < length a \<Longrightarrow> y < length (a ! x) \<Longrightarrow> a ! x ! y \<in> set (concat a)"
  by (auto intro!: bexI[of _ "a ! x"])

lemma mset_concat_update:
  assumes "x < length a" "y < length (a ! x)"
  shows "mset (concat (a[x := (a ! x)[y := v]])) = add_mset v (mset (concat a) - {#a ! x ! y#})"
proof -
  have a: "a = take x a @ (a ! x) # drop (Suc x) a"
    using assms(1) by (simp add: id_take_nth_drop)
  have u: "a[x := (a ! x)[y := v]] = take x a @ ((a ! x)[y := v]) # drop (Suc x) a"
    using assms(1) by (simp add: upd_conv_take_nth_drop)
  obtain R where R: "mset (a ! x) = add_mset (a ! x ! y) R"
    using assms(2) by (metis insert_DiffM nth_mem_mset)
  have "mset (concat a) = add_mset (a ! x ! y) (mset (concat (take x a)) + R + mset (concat (drop (Suc x) a)))"
    by (subst a) (simp add: R)
  moreover have "mset (concat (a[x := (a ! x)[y := v]])) =
      add_mset v (mset (concat (take x a)) + R + mset (concat (drop (Suc x) a)))"
    by (subst u) (simp add: mset_update assms(2) R)
  ultimately show ?thesis by simp
qed

lemma setitem_cells:
  "setitem a p v = Inr b \<Longrightarrow> mset (concat b) = add_mset v (mset (concat a) - {#a ! fst p ! snd p#})"
  by (auto simp: setitem_Inr mset_concat_update)

lemma nth_setitem:
  assumes "setitem a p v = Inr b" "fst q < length a" "snd q < length (a ! fst q)"
  shows "b ! fst q ! snd q = (if q = p then v else a ! fst q ! snd q)"
  using assms by (cases p; cases q) (auto simp: setitem_Inr nth_list_update)

lemma do_action_cells:
  assumes "do_action s act = Inr t"
  shows "mset (concat t) = mset (concat s)"
proof -
  obtain v2 v1 s1 where g2: "getitem s (pos2 act) = Inr v2" and g1: "getitem s (pos1 act) = Inr v1"
    and s1: "setitem s (pos1 act) v2 = Inr s1" and s2: "setitem s1 (pos2 act) v1 = Inr t"
    using assms by (auto simp: do_action_eq split: sum.splits)
  have in1: "v1 \<in># mset (concat s)"
    using g1 by (auto simp: getitem_Inr simp del: set_concat intro: nth_nth_in_concat)
  have in2: "v2 \<in># mset (concat s)"
    using g2 by (auto simp: getitem_Inr simp del: set_concat intro: nth_nth_in_concat)
  have v2': "s1 ! fst (pos2 act) ! snd (pos2 act) = v2"
    using nth_setitem[OF s1, of "pos2 act"] g2 by (auto simp: getitem_Inr)
  have "mset (concat t) = add_mset v1 (add_mset v2 (mset (concat s) - {#v1#}) - {#v2#})"
    using setitem_cells[OF s2] setitem_cells[OF s1] g1 v2' by (simp add: getitem_Inr)
  then show ?thesis using in1 in2 by simp
qed

text \<open>
  The loop ends because a move permutes the cells: the fingerprints a run can add to the
  visited set are rearrangements of the cells of the frontier's configurations, a finite
  set, and every pass either adds a new one or shortens the frontier.
\<close>

definition fingerprints :: "node list \<Rightarrow> int list set" where
  "fingerprints frontier = (\<Union>n \<in> set frontier. {l. mset l = mset (concat (fst (snd n)))})"

lemma finite_fingerprints: "finite (fingerprints frontier)"
  by (simp add: fingerprints_def mset_eq_finite)

lemma heappop_Inr:
  assumes "heappop frontier = Inr (item, rest)"
  shows "item \<in> set frontier" "rest = remove1 item frontier" "\<forall>n \<in> set frontier. item \<le> n"
  using assms by (auto simp: heappop_def Let_def split: if_splits)

lemma expand_one_Inr:
  assumes "expand_one N goal cur path g act fr = Inr fr'"
  shows "\<exists>t h. do_action cur act = Inr t \<and> heuristic N t goal = Inr h \<and>
           fr' = fr @ [(int64_add (g + 1) h, t, path @ [t], g + 1)]"
  using assms by (auto simp: expand_one_def heappush_def Let_def split: sum.splits)

lemma for_each_expand_nodes:
  assumes "for_each (expand_one N goal cur path g) acts fr = Inr fr'"
  shows "\<forall>n \<in> set fr'. n \<in> set fr \<or>
           (\<exists>act \<in> set acts. \<exists>t h. do_action cur act = Inr t \<and> heuristic N t goal = Inr h \<and>
              n = (int64_add (g + 1) h, t, path @ [t], g + 1))"
  using assms
proof (induction acts arbitrary: fr)
  case Nil
  then show ?case by simp
next
  case (Cons a acts)
  from Cons.prems obtain fr1 where 1: "expand_one N goal cur path g a fr = Inr fr1"
    and 2: "for_each (expand_one N goal cur path g) acts fr1 = Inr fr'"
    by (auto split: sum.splits)
  from expand_one_Inr[OF 1] obtain t h where t: "do_action cur a = Inr t" "heuristic N t goal = Inr h"
    "fr1 = fr @ [(int64_add (g + 1) h, t, path @ [t], g + 1)]" by blast
  show ?case
  proof
    fix n assume "n \<in> set fr'"
    with Cons.IH[OF 2] have "n \<in> set fr1 \<or>
           (\<exists>act \<in> set acts. \<exists>t h. do_action cur act = Inr t \<and> heuristic N t goal = Inr h \<and>
              n = (int64_add (g + 1) h, t, path @ [t], g + 1))" by blast
    then show "n \<in> set fr \<or>
           (\<exists>act \<in> set (a # acts). \<exists>t h. do_action cur act = Inr t \<and> heuristic N t goal = Inr h \<and>
              n = (int64_add (g + 1) h, t, path @ [t], g + 1))"
      using t by auto
  qed
qed

lemma iteration_Continue:
  assumes "iteration N goal fr vis = Inr (Continue fr' vis')"
  shows "\<exists>f cur path g rest. heappop fr = Inr ((f, cur, path, g), rest) \<and> \<not> array_equal cur goal \<and>
           (tobytes cur \<in> vis \<and> fr' = rest \<and> vis' = vis \<or>
            tobytes cur \<notin> vis \<and> vis' = insert (tobytes cur) vis \<and>
            (\<exists>acts. available_actions N cur = Inr acts \<and>
               for_each (expand_one N goal cur path g) acts rest = Inr fr'))"
  using assms by (auto simp: iteration_def Let_def split: sum.splits prod.splits if_splits)

lemma iteration_decreases:
  assumes "iteration N goal fr vis = Inr (Continue fr' vis')"
  shows "card (fingerprints fr' - vis') < card (fingerprints fr - vis) \<or>
         card (fingerprints fr' - vis') = card (fingerprints fr - vis) \<and> length fr' < length fr"
proof -
  from iteration_Continue[OF assms] obtain f cur path g rest where
    pop: "heappop fr = Inr ((f, cur, path, g), rest)" and
    cases: "tobytes cur \<in> vis \<and> fr' = rest \<and> vis' = vis \<or>
            tobytes cur \<notin> vis \<and> vis' = insert (tobytes cur) vis \<and>
            (\<exists>acts. available_actions N cur = Inr acts \<and>
               for_each (expand_one N goal cur path g) acts rest = Inr fr')" by blast
  note p = heappop_Inr[OF pop]
  have rest_sub: "set rest \<subseteq> set fr" using p(2) set_remove1_subset by fast
  have len: "length rest < length fr" using p(1,2) length_pos_if_in_set[OF p(1)] by (simp add: length_remove1)
  have cur_in: "tobytes cur \<in> fingerprints fr"
    using p(1) by (force simp: fingerprints_def tobytes_def)
  from cases show ?thesis
  proof (elim disjE conjE exE)
    assume a: "tobytes cur \<in> vis" "fr' = rest" "vis' = vis"
    have "fingerprints rest - vis \<subseteq> fingerprints fr - vis"
      using rest_sub by (auto simp: fingerprints_def)
    then have "card (fingerprints rest - vis) \<le> card (fingerprints fr - vis)"
      by (intro card_mono) (auto simp: finite_fingerprints)
    with a len show ?thesis by auto
  next
    fix acts
    assume a: "tobytes cur \<notin> vis" "vis' = insert (tobytes cur) vis"
      "available_actions N cur = Inr acts" "for_each (expand_one N goal cur path g) acts rest = Inr fr'"
    have "fingerprints fr' \<subseteq> fingerprints fr"
    proof
      fix l assume "l \<in> fingerprints fr'"
      then obtain n where n: "n \<in> set fr'" "mset l = mset (concat (fst (snd n)))"
        by (auto simp: fingerprints_def)
      from for_each_expand_nodes[OF a(4)] n(1) consider "n \<in> set rest"
        | t where "do_action cur t = Inr (fst (snd n))"
        by force
      then show "l \<in> fingerprints fr"
      proof cases
        case 1
        then show ?thesis using n(2) rest_sub by (auto simp: fingerprints_def)
      next
        case 2
        from do_action_cells[OF 2] n(2) have "mset l = mset (concat cur)" by simp
        then show ?thesis using p(1) by (force simp: fingerprints_def)
      qed
    qed
    then have "fingerprints fr' - vis' \<subset> fingerprints fr - vis"
      using a(1,2) cur_in by auto
    then have "card (fingerprints fr' - vis') < card (fingerprints fr - vis)"
      by (intro psubset_card_mono) (auto simp: finite_fingerprints)
    then show ?thesis by simp
  qed
qed

function search_loop :: "nat \<Rightarrow> grid \<Rightarrow> node list \<Rightarrow> int list set \<Rightarrow> error + grid list option" where
  "search_loop N goal_state frontier visited =
     (if frontier = [] then Inr None
      else
        (case iteration N goal_state frontier visited of
           Inl e \<Rightarrow> Inl e
         | Inr (Return path) \<Rightarrow> Inr (Some path)
         | Inr (Continue frontier' visited') \<Rightarrow> search_loop N goal_state frontier' visited'))"
  by pat_completeness auto
termination
proof (relation "measures [\<lambda>(N, goal_state, frontier, visited). card (fingerprints frontier - visited),
                           \<lambda>(N, goal_state, frontier, visited). length frontier]")
  show "wf (measures [\<lambda>(N, goal_state, frontier, visited). card (fingerprints frontier - visited),
                      \<lambda>(N, goal_state, frontier, visited). length (frontier :: node list)])"
    by simp
next
  fix N goal_state frontier visited x2 frontier' visited'
  assume "iteration N goal_state frontier visited = Inr x2" "x2 = Continue frontier' visited'"
  then have "iteration N goal_state frontier visited = Inr (Continue frontier' visited')"
    by simp
  from iteration_decreases[OF this]
  show "((N, goal_state, frontier', visited'), (N, goal_state, frontier, visited))
          \<in> measures [\<lambda>(N, goal_state, frontier, visited). card (fingerprints frontier - visited),
                       \<lambda>(N, goal_state, frontier, visited). length frontier]"
    by auto
qed

declare search_loop.simps [simp del]

text \<open>The state in which \<^verbatim>\<open>solve_puzzle\<close> enters the loop: the frontier after the one
  \<^verbatim>\<open>heappush\<close>, and the visited set.\<close>

definition solve_puzzle_init :: "grid \<Rightarrow> node list \<times> int list set" where
  "solve_puzzle_init start_state =
     (let frontier = [];
          frontier = heappush frontier (0, start_state, [start_state], 0);
          visited = {}
      in (frontier, visited))"

definition solve_puzzle :: "nat \<Rightarrow> grid \<Rightarrow> grid \<Rightarrow> error + grid list option" where
  "solve_puzzle N start_state goal_state =
     (case solve_puzzle_init start_state of
        (frontier, visited) \<Rightarrow> search_loop N goal_state frontier visited)"

lemma solve_puzzle_eq:
  "solve_puzzle N start goal = search_loop N goal [(0, start, [start], 0)] {}"
  by (simp add: solve_puzzle_def solve_puzzle_init_def heappush_def)

subsection \<open>Runs\<close>

text \<open>The passes of a run: from a frontier and a visited set, zero or more passes through
  the body of the loop, none of which returns or raises, lead to another frontier and
  visited set.\<close>

inductive passes :: "nat \<Rightarrow> grid \<Rightarrow> node list \<times> int list set \<Rightarrow> node list \<times> int list set \<Rightarrow> bool"
  for N :: nat and goal_state :: grid where
  passes_refl: "passes N goal_state s s"
| passes_step: "iteration N goal_state frontier visited = Inr (Continue frontier' visited') \<Longrightarrow>
     passes N goal_state (frontier', visited') s \<Longrightarrow>
     passes N goal_state (frontier, visited) s"

text \<open>Two passes end alike: the same error, the same returned path, or the same visited
  set with the same nodes in the frontier, whatever their arrangement.\<close>

fun same_flow :: "error + flow \<Rightarrow> error + flow \<Rightarrow> bool" where
  "same_flow (Inl e) (Inl e') = (e = e')"
| "same_flow (Inr (Return path)) (Inr (Return path')) = (path = path')"
| "same_flow (Inr (Continue frontier visited)) (Inr (Continue frontier' visited')) =
     (mset frontier = mset frontier' \<and> visited = visited')"
| "same_flow _ _ = False"

text \<open>
  The same run with \<^verbatim>\<open>heapq\<close> taken by its contract alone, as a relation between the
  arguments and a result. \<^verbatim>\<open>heappush\<close> leaves a list that holds the old items and the
  new one, in some arrangement; \<^verbatim>\<open>heappop\<close> removes and returns an item that no item of
  the list is less than, in the order of the node tuples, and leaves the others in some
  arrangement.
\<close>

definition is_heappush :: "node list \<Rightarrow> node \<Rightarrow> node list \<Rightarrow> bool" where
  "is_heappush frontier item frontier' = (mset frontier' = add_mset item (mset frontier))"

definition is_heappop :: "node list \<Rightarrow> node \<Rightarrow> node list \<Rightarrow> bool" where
  "is_heappop frontier item rest =
     (item \<in> set frontier \<and> (\<forall>n \<in> set frontier. item \<le> n) \<and>
      mset rest = mset frontier - {#item#})"

text \<open>The \<^verbatim>\<open>for\<close> loop over the actions, and the \<^verbatim>\<open>while\<close> loop, rule by rule as the
  source branches. The loop takes the pop as a parameter.\<close>

inductive expands :: "nat \<Rightarrow> grid \<Rightarrow> grid \<Rightarrow> grid list \<Rightarrow> int \<Rightarrow> Action list \<Rightarrow> node list \<Rightarrow> error + node list \<Rightarrow> bool"
  for N :: nat and goal_state :: grid and current_state :: grid and path :: "grid list" and g_cost :: int where
  expands_done: "expands N goal_state current_state path g_cost [] frontier (Inr frontier)"
| expands_raise_action:
    "do_action current_state act = Inl e \<Longrightarrow>
     expands N goal_state current_state path g_cost (act # acts) frontier (Inl e)"
| expands_raise_heuristic:
    "do_action current_state act = Inr new_state \<Longrightarrow>
     heuristic N new_state goal_state = Inl e \<Longrightarrow>
     expands N goal_state current_state path g_cost (act # acts) frontier (Inl e)"
| expands_push:
    "do_action current_state act = Inr new_state \<Longrightarrow>
     heuristic N new_state goal_state = Inr h \<Longrightarrow>
     is_heappush frontier (int64_add (g_cost + 1) h, new_state, path @ [new_state], g_cost + 1) frontier' \<Longrightarrow>
     expands N goal_state current_state path g_cost acts frontier' r \<Longrightarrow>
     expands N goal_state current_state path g_cost (act # acts) frontier r"

inductive searches :: "(node list \<Rightarrow> node \<Rightarrow> node list \<Rightarrow> bool) \<Rightarrow> nat \<Rightarrow> grid \<Rightarrow> node list \<Rightarrow> int list set \<Rightarrow> error + grid list option \<Rightarrow> bool"
  for pop :: "node list \<Rightarrow> node \<Rightarrow> node list \<Rightarrow> bool" and N :: nat and goal_state :: grid where
  searches_exhausted: "searches pop N goal_state [] visited (Inr None)"
| searches_return:
    "pop frontier (f_cost, current_state, path, g_cost) rest \<Longrightarrow>
     array_equal current_state goal_state \<Longrightarrow>
     searches pop N goal_state frontier visited (Inr (Some path))"
| searches_continue:
    "pop frontier (f_cost, current_state, path, g_cost) rest \<Longrightarrow>
     \<not> array_equal current_state goal_state \<Longrightarrow>
     tobytes current_state \<in> visited \<Longrightarrow>
     searches pop N goal_state rest visited r \<Longrightarrow>
     searches pop N goal_state frontier visited r"
| searches_raise_actions:
    "pop frontier (f_cost, current_state, path, g_cost) rest \<Longrightarrow>
     \<not> array_equal current_state goal_state \<Longrightarrow>
     tobytes current_state \<notin> visited \<Longrightarrow>
     available_actions N current_state = Inl e \<Longrightarrow>
     searches pop N goal_state frontier visited (Inl e)"
| searches_raise_expand:
    "pop frontier (f_cost, current_state, path, g_cost) rest \<Longrightarrow>
     \<not> array_equal current_state goal_state \<Longrightarrow>
     tobytes current_state \<notin> visited \<Longrightarrow>
     available_actions N current_state = Inr acts \<Longrightarrow>
     expands N goal_state current_state path g_cost acts rest (Inl e) \<Longrightarrow>
     searches pop N goal_state frontier visited (Inl e)"
| searches_expand:
    "pop frontier (f_cost, current_state, path, g_cost) rest \<Longrightarrow>
     \<not> array_equal current_state goal_state \<Longrightarrow>
     tobytes current_state \<notin> visited \<Longrightarrow>
     available_actions N current_state = Inr acts \<Longrightarrow>
     expands N goal_state current_state path g_cost acts rest (Inr frontier') \<Longrightarrow>
     searches pop N goal_state frontier' (insert (tobytes current_state) visited) r \<Longrightarrow>
     searches pop N goal_state frontier visited r"

text \<open>For comparison, a pop that looks at \<open>f\<close> alone and leaves ties open.\<close>

definition least_f_pop :: "node list \<Rightarrow> node \<Rightarrow> node list \<Rightarrow> bool" where
  "least_f_pop frontier item rest =
     (item \<in> set frontier \<and> (\<forall>n \<in> set frontier. fst item \<le> fst n) \<and>
      mset rest = mset frontier - {#item#})"

definition solve_puzzle_rel :: "nat \<Rightarrow> grid \<Rightarrow> grid \<Rightarrow> error + grid list option \<Rightarrow> bool" where
  "solve_puzzle_rel N start_state goal_state r =
     (\<exists>frontier. is_heappush [] (0, start_state, [start_state], 0) frontier \<and>
        searches is_heappop N goal_state frontier {} r)"

subsection \<open>Paths\<close>

text \<open>One step of a path: the second configuration is what \<^verbatim>\<open>do_action\<close> returns on the
  first for one of the moves of \<^verbatim>\<open>available_actions\<close> of the first.\<close>

definition valid_step :: "nat \<Rightarrow> grid \<Rightarrow> grid \<Rightarrow> bool" where
  "valid_step N c d =
     (case available_actions N c of
        Inl e \<Rightarrow> False
      | Inr acts \<Rightarrow> \<exists>m \<in> set acts. do_action c m = Inr d)"

fun moves_chain :: "nat \<Rightarrow> grid list \<Rightarrow> bool" where
  "moves_chain N [] = True"
| "moves_chain N [c] = True"
| "moves_chain N (c # d # cs) = (valid_step N c d \<and> moves_chain N (d # cs))"

text \<open>The cost of a pushed node: \<^verbatim>\<open>new_f_cost = new_g_cost + heuristic(new_state, goal_state)\<close>.\<close>

definition pushed_cost :: "nat \<Rightarrow> grid \<Rightarrow> node \<Rightarrow> bool" where
  "pushed_cost N goal_state n =
     (case n of (f, state, path, g) \<Rightarrow>
        (case heuristic N state goal_state of
           Inl e \<Rightarrow> False
         | Inr h \<Rightarrow> f = int64_add g h))"

text \<open>What the search keeps true of every node of the frontier.\<close>

definition node_ok :: "nat \<Rightarrow> grid \<Rightarrow> node \<Rightarrow> bool" where
  "node_ok N start n =
     (case n of (f, cur, path, g) \<Rightarrow>
        path \<noteq> [] \<and> hd path = start \<and> last path = cur \<and> moves_chain N path)"

subsection \<open>Facts about the moves\<close>

lemma grid_eqI:
  assumes "length a = length b" "\<And>i. i < length a \<Longrightarrow> length (a ! i) = length (b ! i)"
    "\<And>i j. i < length a \<Longrightarrow> j < length (a ! i) \<Longrightarrow> a ! i ! j = b ! i ! j"
  shows "a = (b :: grid)"
  using assms by (simp add: list_eq_iff_nth_eq)

lemma setitem_shape:
  assumes "setitem a p v = Inr b"
  shows "length b = length a" "i < length a \<Longrightarrow> length (b ! i) = length (a ! i)"
  using assms by (auto simp: setitem_Inr nth_list_update)

lemma setitem_nth:
  assumes "setitem a p v = Inr b" "i < length a" "j < length (a ! i)"
  shows "b ! i ! j = (if (i, j) = p then v else a ! i ! j)"
  using nth_setitem[OF assms(1), where q = "(i, j)"] assms(2,3) by simp

lemma do_action_Inr:
  assumes "do_action c m = Inr c'"
  shows "fst (pos1 m) < length c" "snd (pos1 m) < length (c ! fst (pos1 m))"
    "fst (pos2 m) < length c" "snd (pos2 m) < length (c ! fst (pos2 m))"
    "length c' = length c"
    "i < length c \<Longrightarrow> length (c' ! i) = length (c ! i)"
    "i < length c \<Longrightarrow> j < length (c ! i) \<Longrightarrow>
       c' ! i ! j = (if (i, j) = pos2 m then c ! fst (pos1 m) ! snd (pos1 m)
                     else if (i, j) = pos1 m then c ! fst (pos2 m) ! snd (pos2 m)
                     else c ! i ! j)"
proof -
  obtain v2 v1 c1 where g2: "getitem c (pos2 m) = Inr v2" and g1: "getitem c (pos1 m) = Inr v1"
    and s1: "setitem c (pos1 m) v2 = Inr c1" and s2: "setitem c1 (pos2 m) v1 = Inr c'"
    using assms by (auto simp: do_action_eq split: sum.splits)
  show "fst (pos1 m) < length c" "snd (pos1 m) < length (c ! fst (pos1 m))"
    "fst (pos2 m) < length c" "snd (pos2 m) < length (c ! fst (pos2 m))"
    using g1 g2 by (auto simp: getitem_Inr)
  show "length c' = length c"
    using setitem_shape(1)[OF s1] setitem_shape(1)[OF s2] by simp
  show "length (c' ! i) = length (c ! i)" if "i < length c"
    using that setitem_shape[OF s1] setitem_shape[OF s2] by simp
  show "c' ! i ! j = (if (i, j) = pos2 m then c ! fst (pos1 m) ! snd (pos1 m)
                     else if (i, j) = pos1 m then c ! fst (pos2 m) ! snd (pos2 m)
                     else c ! i ! j)" if "i < length c" "j < length (c ! i)"
    using that setitem_nth[OF s2, of i j] setitem_nth[OF s1, of i j] setitem_shape(2)[OF s1, of i]
      setitem_shape(1)[OF s1] g1 g2
    by (auto simp: getitem_Inr)
qed

lemma do_action_defined:
  assumes "fst (pos1 m) < length c" "snd (pos1 m) < length (c ! fst (pos1 m))"
    "fst (pos2 m) < length c" "snd (pos2 m) < length (c ! fst (pos2 m))"
  shows "\<exists>c'. do_action c m = Inr c'"
  using assms
  by (cases "pos1 m"; cases "pos2 m")
     (auto simp: do_action_eq getitem_def setitem_def nth_list_update split: sum.splits)

lemma do_action_twice:
  assumes "do_action c m = Inr c'"
  shows "do_action c' m = Inr c"
proof -
  note f = do_action_Inr[OF assms]
  have "\<exists>c''. do_action c' m = Inr c''"
    using f(1-6) by (intro do_action_defined) auto
  then obtain c'' where c'': "do_action c' m = Inr c''" ..
  note g = do_action_Inr[OF c'']
  have "c'' = c"
  proof (rule grid_eqI)
    show "length c'' = length c" using f(5) g(5) by simp
  next
    fix i assume "i < length c''"
    then show "length (c'' ! i) = length (c ! i)" using f(5,6) g(5,6) by simp
  next
    fix i j assume ij: "i < length c''" "j < length (c'' ! i)"
    then have i: "i < length c" and j: "j < length (c ! i)" and i': "i < length c'" and j': "j < length (c' ! i)"
      using f(5,6) g(5,6) by simp_all
    obtain x1 y1 x2 y2 where p: "pos1 m = (x1, y1)" "pos2 m = (x2, y2)"
      by (cases "pos1 m"; cases "pos2 m") blast
    show "c'' ! i ! j = c ! i ! j"
      using g(7)[OF i' j'] f(7)[OF i j] f(7)[OF f(1,2)] f(7)[OF f(3,4)]
      by (auto simp: p split: if_splits)
  qed
  with c'' show ?thesis by simp
qed

lemma where_eq0_set:
  "(x, y) \<in> set (where_eq0 c) \<longleftrightarrow> x < length c \<and> y < length (c ! x) \<and> c ! x ! y = 0"
  by (auto simp: where_eq0_def zeros_of_row_def)

lemma available_actions_Inr:
  assumes "available_actions N c = Inr acts"
  shows "\<exists>x y rest. where_eq0 c = (x, y) # rest \<and> x < length c \<and> y < length (c ! x) \<and> c ! x ! y = 0 \<and>
           acts = (if x > 0 then [Action (x, y) (x - 1, y)] else []) @
                  (if int x < int N - 1 then [Action (x, y) (x + 1, y)] else []) @
                  (if y > 0 then [Action (x, y) (x, y - 1)] else []) @
                  (if int y < int N - 1 then [Action (x, y) (x, y + 1)] else [])"
proof -
  from assms obtain x y rest where w: "where_eq0 c = (x, y) # rest"
    by (auto simp: available_actions_def split: list.splits)
  then have "(x, y) \<in> set (where_eq0 c)" by simp
  then have "x < length c \<and> y < length (c ! x) \<and> c ! x ! y = 0"
    by (simp only: where_eq0_set)
  with w assms show ?thesis
    by (simp add: available_actions_def)
qed

lemma available_move:
  assumes "is_grid N c" "available_actions N c = Inr acts" "m \<in> set acts"
  shows "\<exists>x y. pos1 m = (x, y) \<and> x < N \<and> y < N \<and> c ! x ! y = 0 \<and>
           (x > 0 \<and> pos2 m = (x - 1, y) \<or> x + 1 < N \<and> pos2 m = (x + 1, y) \<or>
            y > 0 \<and> pos2 m = (x, y - 1) \<or> y + 1 < N \<and> pos2 m = (x, y + 1))"
proof -
  from available_actions_Inr[OF assms(2)] obtain x y rest where
    xy: "x < length c" "y < length (c ! x)" "c ! x ! y = 0" and
    acts: "acts = (if x > 0 then [Action (x, y) (x - 1, y)] else []) @
                  (if int x < int N - 1 then [Action (x, y) (x + 1, y)] else []) @
                  (if y > 0 then [Action (x, y) (x, y - 1)] else []) @
                  (if int y < int N - 1 then [Action (x, y) (x, y + 1)] else [])" by blast
  have "x < N" "y < N"
    using xy assms(1) by (auto simp: is_grid_def list_all_length)
  with assms(3) acts xy(3) show ?thesis
    by (auto split: if_splits)
qed

lemma available_move_in_range:
  assumes "is_grid N c" "available_actions N c = Inr acts" "m \<in> set acts"
  shows "fst (pos1 m) < length c" "snd (pos1 m) < length (c ! fst (pos1 m))"
    "fst (pos2 m) < length c" "snd (pos2 m) < length (c ! fst (pos2 m))"
    "pos1 m \<noteq> pos2 m" "c ! fst (pos1 m) ! snd (pos1 m) = 0"
  using available_move[OF assms] assms(1)
  by (auto simp: is_grid_def list_all_length)

lemma do_action_on_eq:
  assumes "state < length h"
  shows "do_action_on h state m =
     (case do_action (h ! state) m of Inl e \<Rightarrow> Inl e | Inr g \<Rightarrow> Inr (h @ [g], length h))"
  using assms
  by (simp add: do_action_on_def do_action_eq array_copy_def store_getitem_def store_setitem_def
      nth_append split: sum.splits)

lemma count_list_concat: "count_list (concat xss) v = sum_list (map (\<lambda>xs. count_list xs v) xss)"
  by (induction xss) simp_all

lemma length_zeros_of_row: "length (zeros_of_row row) = count_list row 0"
proof -
  have "filter (\<lambda>v. v = 0) (map (nth row) [0..<length row]) =
        map (nth row) (filter (\<lambda>y. row ! y = 0) [0..<length row])"
    by (simp add: filter_map o_def)
  then have "length (filter (\<lambda>v. v = 0) row) = length (zeros_of_row row)"
    by (simp add: map_nth zeros_of_row_def del: length_filter_conv_card)
  moreover have "(\<lambda>v::int. v = 0) = (=) 0"
    by auto
  ultimately show ?thesis
    by (simp add: count_list_eq_length_filter del: length_filter_conv_card)
qed

lemma length_where_eq0: "length (where_eq0 c) = count_list (concat c) 0"
proof -
  have "map (\<lambda>x. count_list (c ! x) 0) [0..<length c] = map (\<lambda>row. count_list row 0) (map (nth c) [0..<length c])"
    by simp
  then have "map (\<lambda>x. count_list (c ! x) 0) [0..<length c] = map (\<lambda>row. count_list row 0) c"
    by (simp only: map_nth)
  then show ?thesis
    by (simp add: where_eq0_def length_concat o_def length_zeros_of_row count_list_concat)
qed

lemma unique_blank:
  assumes "count_list (concat c) 0 = 1" "x < length c" "y < length (c ! x)" "c ! x ! y = 0"
  shows "where_eq0 c = [(x, y)]"
proof -
  have "length (where_eq0 c) = 1"
    using assms(1) by (simp add: length_where_eq0)
  then obtain p where p: "where_eq0 c = [p]"
    by (cases "where_eq0 c") auto
  have "(x, y) \<in> set (where_eq0 c)"
    using assms(2-4) by (simp only: where_eq0_set)
  with p show ?thesis by simp
qed

subsection \<open>Facts about the heuristic\<close>

text \<open>The 64 bits are seen on cells that no configuration has: a single cell
  \<open>2\<^sup>6\<^sup>3 - 1\<close> over a goal cell 0 gives \<open>- 2\<^sup>6\<^sup>3\<close>.\<close>

lemma heuristic_wraps: "heuristic 1 [[2 ^ 63 - 1]] [[0]] = Inr (- (2 ^ 63))"
  by code_simp

lemma wrap64_id: "- (2 ^ 63) \<le> i \<Longrightarrow> i < 2 ^ 63 \<Longrightarrow> wrap64 i = i"
  by (simp add: wrap64_def)

lemma is_grid_getitem:
  "is_grid N c \<Longrightarrow> x < N \<Longrightarrow> y < N \<Longrightarrow> getitem c (x, y) = Inr (c ! x ! y)"
  by (simp add: is_grid_def list_all_length getitem_def)

lemma invariant_cell_range:
  assumes "invariant N c" "x < N" "y < N"
  shows "0 \<le> c ! x ! y" "c ! x ! y < int (N * N)"
proof -
  have g: "is_grid N c" using assms(1) by (simp add: invariant_def)
  then have "x < length c" "y < length (c ! x)"
    using assms(2,3) by (auto simp: is_grid_def list_all_length)
  then have m: "c ! x ! y \<in> set (concat c)"
    by (rule nth_nth_in_concat)
  have "mset (filter (\<lambda>v. v \<noteq> 0) (concat c)) = mset (map int [1..<N * N])"
    using assms(1) unfolding invariant_def by blast
  then have "set (filter (\<lambda>v. v \<noteq> 0) (concat c)) = set (map int [1..<N * N])"
    by (rule mset_eq_setD)
  with m have "c ! x ! y = 0 \<or> c ! x ! y \<in> set (map int [1..<N * N])"
    by auto
  moreover have "0 < N * N" using assms(2) by simp
  ultimately show "0 \<le> c ! x ! y" "c ! x ! y < int (N * N)"
    by (auto simp del: of_nat_mult)
qed

lemma goal_position_range:
  assumes "1 \<le> v" "v < int (N * N)"
  shows "0 \<le> (v - 1) div int N" "(v - 1) div int N < int N"
    "0 \<le> (v - 1) mod int N" "(v - 1) mod int N < int N"
proof -
  have N: "0 < int N" using assms by (cases N) auto
  have "\<exists>k. v - 1 = int k \<and> k < N * N"
    using assms by presburger
  then obtain k where k: "v - 1 = int k" "k < N * N"
    by blast
  have "k div N < N"
    using k(2) by (simp add: less_mult_imp_div_less)
  then show "(v - 1) div int N < int N"
    by (simp add: k(1) flip: zdiv_int)
  show "0 \<le> (v - 1) div int N"
    by (simp add: k(1) flip: zdiv_int)
  show "0 \<le> (v - 1) mod int N" "(v - 1) mod int N < int N"
    using N by simp_all
qed


lemma heuristic_cell_config:
  assumes "invariant N c" "is_grid N g" "N < 2 ^ 20" "x < N" "y < N"
    and "0 \<le> md"
    and "md + (if c ! x ! y \<noteq> 0
               then \<bar>int x - (c ! x ! y - 1) div int N\<bar> + \<bar>int y - (c ! x ! y - 1) mod int N\<bar>
               else 0) < 2 ^ 63"
  shows "heuristic_cell N c g x y (md, mc) =
     Inr (md + (if c ! x ! y \<noteq> 0
                then \<bar>int x - (c ! x ! y - 1) div int N\<bar> + \<bar>int y - (c ! x ! y - 1) mod int N\<bar>
                else 0),
          mc + (if c ! x ! y \<noteq> 0 \<and> c ! x ! y \<noteq> g ! x ! y then 1 else 0))"
proof (cases "c ! x ! y = 0")
  case True
  have "is_grid N c" using assms(1) by (simp add: invariant_def)
  with True show ?thesis
    using assms(4,5) by (simp add: heuristic_cell_def is_grid_getitem)
next
  case False
  let ?v = "c ! x ! y"
  have gc: "is_grid N c" using assms(1) by (simp add: invariant_def)
  note r = invariant_cell_range[OF assms(1,4,5)]
  have v: "1 \<le> ?v" "?v < int (N * N)" using r False by auto
  note p = goal_position_range[OF v]
  have n: "int N < 2 ^ 20" using assms(3) by simp
  have "int N * int N \<le> 2 ^ 20 * 2 ^ 20"
    using n by (intro mult_mono) auto
  then have vb: "?v < 2 ^ 63" using v(2) by simp
  have xi: "0 \<le> int x" "int x < int N" "0 \<le> int y" "int y < int N"
    using assms(4,5) by simp_all
  have bx: "\<bar>int x - (?v - 1) div int N\<bar> < 2 ^ 20"
    using p(1,2) xi(1,2) n by linarith
  have bdy: "\<bar>int y - (?v - 1) mod int N\<bar> < 2 ^ 20"
    using p(3,4) xi(3,4) n by linarith
  have s1: "int64_sub ?v 1 = ?v - 1"
    using v(1) vb by (simp add: int64_sub_def wrap64_id)
  have s2: "int64_sub (int x) ((?v - 1) div int N) = int x - (?v - 1) div int N"
    unfolding int64_sub_def using bx by (intro wrap64_id) simp_all
  have s3: "int64_sub (int y) ((?v - 1) mod int N) = int y - (?v - 1) mod int N"
    unfolding int64_sub_def using bdy by (intro wrap64_id) simp_all
  have a2: "int64_abs (int x - (?v - 1) div int N) = \<bar>int x - (?v - 1) div int N\<bar>"
    unfolding int64_abs_def using bx by (intro wrap64_id) simp_all
  have a3: "int64_abs (int y - (?v - 1) mod int N) = \<bar>int y - (?v - 1) mod int N\<bar>"
    unfolding int64_abs_def using bdy by (intro wrap64_id) simp_all
  have t: "int64_add \<bar>int x - (?v - 1) div int N\<bar> \<bar>int y - (?v - 1) mod int N\<bar> =
      \<bar>int x - (?v - 1) div int N\<bar> + \<bar>int y - (?v - 1) mod int N\<bar>"
    unfolding int64_add_def using bx bdy by (intro wrap64_id) simp_all
  have m: "int64_add md (\<bar>int x - (?v - 1) div int N\<bar> + \<bar>int y - (?v - 1) mod int N\<bar>) =
      md + (\<bar>int x - (?v - 1) div int N\<bar> + \<bar>int y - (?v - 1) mod int N\<bar>)"
    unfolding int64_add_def using assms(6,7) False by (intro wrap64_id) simp_all
  show ?thesis
    using False assms(2,4,5) gc
    by (simp add: heuristic_cell_def is_grid_getitem Let_def s1 s2 s3 a2 a3 t m)
qed


lemma manhattan_term_bound:
  assumes "invariant N c" "x < N" "y < N" "c ! x ! y \<noteq> 0"
  shows "\<bar>int x - (c ! x ! y - 1) div int N\<bar> + \<bar>int y - (c ! x ! y - 1) mod int N\<bar> \<le> 2 * int N"
proof -
  note r = invariant_cell_range[OF assms(1-3)]
  have v: "1 \<le> c ! x ! y" "c ! x ! y < int (N * N)" using r assms(4) by auto
  note p = goal_position_range[OF v]
  have xi: "0 \<le> int x" "int x < int N" "0 \<le> int y" "int y < int N"
    using assms(2,3) by simp_all
  show ?thesis using p xi by linarith
qed

lemma for_each_sums_bounded:
  assumes "\<And>x md mc. x \<in> set xs \<Longrightarrow> 0 \<le> md \<Longrightarrow> md + d x < B \<Longrightarrow>
             body x (md, mc) = Inr (md + d x, mc + k x)"
    and "\<And>x. x \<in> set xs \<Longrightarrow> 0 \<le> d x"
    and "0 \<le> md" "md + sum_list (map d xs) < (B :: int)"
  shows "for_each body xs (md, mc) = Inr (md + sum_list (map d xs), mc + sum_list (map k xs :: int list))"
  using assms
proof (induction xs arbitrary: md mc)
  case Nil
  then show ?case by simp
next
  case (Cons x xs)
  have rest: "0 \<le> sum_list (map d xs)"
    by (rule sum_list_nonneg) (use Cons.prems(2) in auto)
  have dx: "0 \<le> d x" using Cons.prems(2) by simp
  have "md + d x < B"
    using Cons.prems(4) rest by simp
  then have 1: "body x (md, mc) = Inr (md + d x, mc + k x)"
    using Cons.prems(1,3) by simp
  have 2: "for_each body xs (md + d x, mc + k x) =
      Inr (md + d x + sum_list (map d xs), mc + k x + sum_list (map k xs))"
  proof (rule Cons.IH)
    show "0 \<le> md + d x" using Cons.prems(3) dx by simp
    show "md + d x + sum_list (map d xs) < B" using Cons.prems(4) by (simp add: add.assoc)
  qed (use Cons.prems(1,2) in auto)
  from 1 2 show ?case by (simp add: add.assoc)
qed

lemma sum_list_le:
  "(\<And>x. x \<in> set xs \<Longrightarrow> f x \<le> (b::int)) \<Longrightarrow> sum_list (map f xs) \<le> int (length xs) * b"
proof (induction xs)
  case Nil
  then show ?case by simp
next
  case (Cons a xs)
  have "f a \<le> b" using Cons.prems by simp
  moreover have "sum_list (map f xs) \<le> int (length xs) * b"
    using Cons.prems by (intro Cons.IH) simp
  ultimately show ?case by (simp add: algebra_simps)
qed

lemma sum_list_filter_product:
  "(\<Sum>p \<leftarrow> filter P (List.product xs ys). f p) =
   (\<Sum>x \<leftarrow> xs. \<Sum>y \<leftarrow> ys. if P (x, y) then f (x, y) else (0::int))"
proof (induction xs)
  case Nil
  then show ?case by simp
next
  case (Cons x xs)
  have "(\<Sum>p \<leftarrow> filter P (map (Pair x) ys). f p) = (\<Sum>y \<leftarrow> ys. if P (x, y) then f (x, y) else 0)"
    by (induction ys) simp_all
  with Cons show ?case by simp
qed

lemma length_filter_as_sum: "int (length (filter P xs)) = (\<Sum>x \<leftarrow> filter P xs. 1)"
  by (induction xs) simp_all

subsection \<open>Facts about the search\<close>

text \<open>An array without rows never passes the goal test, and has no zero to move.\<close>

lemma solve_puzzle_no_rows: "solve_puzzle N [] goal = Inl IndexError"
  by (simp add: solve_puzzle_eq search_loop.simps iteration_def heappop_def
      array_equal_def tobytes_def available_actions_def where_eq0_def)

lemma moves_chain_snoc:
  "path \<noteq> [] \<Longrightarrow> moves_chain N path \<Longrightarrow> valid_step N (last path) d \<Longrightarrow> moves_chain N (path @ [d])"
  by (induction N path rule: moves_chain.induct) auto

lemma iteration_Return:
  assumes "iteration N goal fr vis = Inr (Return path)"
  shows "\<exists>f cur g rest. heappop fr = Inr ((f, cur, path, g), rest) \<and> array_equal cur goal"
  using assms by (auto simp: iteration_def Let_def split: sum.splits prod.splits if_splits)

lemma search_loop_Some:
  assumes "search_loop N goal fr vis = Inr (Some path)"
  shows "fr \<noteq> [] \<and> (iteration N goal fr vis = Inr (Return path) \<or>
           (\<exists>fr' vis'. iteration N goal fr vis = Inr (Continue fr' vis') \<and>
              search_loop N goal fr' vis' = Inr (Some path)))"
  using assms
  by (subst (asm) search_loop.simps) (auto split: if_splits sum.splits flow.splits)

lemma search_loop_invariant:
  assumes "search_loop N goal fr vis = Inr (Some path)"
    and "\<forall>n \<in> set fr. P n"
    and "\<And>f cur path g acts act t h.
           P (f, cur, path, g) \<Longrightarrow> available_actions N cur = Inr acts \<Longrightarrow> act \<in> set acts \<Longrightarrow>
           do_action cur act = Inr t \<Longrightarrow> heuristic N t goal = Inr h \<Longrightarrow>
           P (int64_add (g + 1) h, t, path @ [t], g + 1)"
  shows "\<exists>f g. P (f, goal, path, g)"
  using assms
proof (induction N goal fr vis rule: search_loop.induct)
  case (1 N goal fr vis)
  from search_loop_Some[OF "1.prems"(1)] have ne: "fr \<noteq> []" and
    c: "iteration N goal fr vis = Inr (Return path) \<or>
           (\<exists>fr' vis'. iteration N goal fr vis = Inr (Continue fr' vis') \<and>
              search_loop N goal fr' vis' = Inr (Some path))" by auto
  from c show ?case
  proof (elim disjE exE conjE)
    assume "iteration N goal fr vis = Inr (Return path)"
    from iteration_Return[OF this] obtain f cur g rest where
      pop: "heappop fr = Inr ((f, cur, path, g), rest)" and eq: "array_equal cur goal" by blast
    from heappop_Inr(1)[OF pop] "1.prems"(2) have "P (f, cur, path, g)" by blast
    with eq show ?thesis by (auto simp: array_equal_def)
  next
    fix fr' vis'
    assume it: "iteration N goal fr vis = Inr (Continue fr' vis')"
      and rec: "search_loop N goal fr' vis' = Inr (Some path)"
    from iteration_Continue[OF it] obtain f cur p g rest where
      pop: "heappop fr = Inr ((f, cur, p, g), rest)" and
      cases: "tobytes cur \<in> vis \<and> fr' = rest \<and> vis' = vis \<or>
            tobytes cur \<notin> vis \<and> vis' = insert (tobytes cur) vis \<and>
            (\<exists>acts. available_actions N cur = Inr acts \<and>
               for_each (expand_one N goal cur p g) acts rest = Inr fr')" by blast
    note hp = heappop_Inr[OF pop]
    have Pcur: "P (f, cur, p, g)" using hp(1) "1.prems"(2) by blast
    have Prest: "\<forall>n \<in> set rest. P n"
      using hp(2) "1.prems"(2) set_remove1_subset by fast
    have "\<forall>n \<in> set fr'. P n"
      using cases
    proof (elim disjE conjE exE)
      assume "fr' = rest" then show ?thesis using Prest by simp
    next
      fix acts
      assume a: "available_actions N cur = Inr acts"
        "for_each (expand_one N goal cur p g) acts rest = Inr fr'"
      show ?thesis
      proof
        fix n assume "n \<in> set fr'"
        with for_each_expand_nodes[OF a(2)] have "n \<in> set rest \<or>
           (\<exists>act \<in> set acts. \<exists>t h. do_action cur act = Inr t \<and> heuristic N t goal = Inr h \<and>
              n = (int64_add (g + 1) h, t, p @ [t], g + 1))" by blast
        then show "P n"
          using Prest "1.prems"(3)[OF Pcur a(1)] by auto
      qed
    qed
    from "1.IH"[OF ne it refl rec this "1.prems"(3)] show ?thesis .
  qed
qed

lemma invariant_cells:
  assumes "invariant N c" "is_grid N c'" "mset (concat c') = mset (concat c)"
  shows "invariant N c'"
proof -
  have "count_list (concat c') 0 = count_list (concat c) 0"
    using assms(3) by (metis count_mset)
  moreover have "mset (filter (\<lambda>v. v \<noteq> 0) (concat c')) = mset (filter (\<lambda>v. v \<noteq> 0) (concat c))"
    using assms(3) by (simp only: mset_filter)
  ultimately show ?thesis
    using assms(1,2) by (simp add: invariant_def)
qed

lemma do_action_is_grid:
  assumes "do_action c m = Inr c'" "is_grid N c"
  shows "is_grid N c'"
  using do_action_Inr(5,6)[OF assms(1)] assms(2)
  by (simp add: is_grid_def list_all_length)

lemma iteration_Nil: "iteration N goal [] vis = Inl IndexError"
  by (simp add: iteration_def heappop_def)

lemma search_loop_None:
  "search_loop N goal fr vis = Inr None \<longleftrightarrow>
     fr = [] \<or> (\<exists>fr' vis'. iteration N goal fr vis = Inr (Continue fr' vis') \<and>
                  search_loop N goal fr' vis' = Inr None)"
  by (subst search_loop.simps) (auto split: sum.splits flow.splits)

lemma search_loop_None_passes:
  "search_loop N goal fr vis = Inr None \<Longrightarrow> \<exists>vis'. passes N goal (fr, vis) ([], vis')"
proof (induction N goal fr vis rule: search_loop.induct)
  case (1 N goal fr vis)
  show ?case
  proof (cases "fr = []")
    case True
    then show ?thesis by (auto intro: passes_refl)
  next
    case False
    with "1.prems" obtain fr' vis' where it: "iteration N goal fr vis = Inr (Continue fr' vis')"
      and rec: "search_loop N goal fr' vis' = Inr None"
      by (auto simp: search_loop_None[of N goal fr vis])
    from "1.IH"[OF False it refl rec] obtain v where "passes N goal (fr', vis') ([], v)" ..
    with it show ?thesis by (auto intro: passes_step)
  qed
qed

lemma passes_search_loop_None:
  "passes N goal s s' \<Longrightarrow> fst s' = [] \<Longrightarrow> search_loop N goal (fst s) (snd s) = Inr None"
proof (induction rule: passes.induct)
  case (passes_refl s)
  then show ?case by (subst search_loop_None) simp
next
  case (passes_step frontier visited frontier' visited' s)
  then show ?case
    by (subst search_loop_None) auto
qed

lemma expand_one_eq:
  "expand_one N goal cur path g act fr =
     (case expand_one N goal cur path g act [] of Inl e \<Rightarrow> Inl e | Inr ch \<Rightarrow> Inr (fr @ ch))"
  by (simp add: expand_one_def heappush_def Let_def split: sum.splits)

lemma for_each_expand_append:
  "for_each (expand_one N goal cur path g) acts fr =
     (case for_each (expand_one N goal cur path g) acts [] of
        Inl e \<Rightarrow> Inl e | Inr ch \<Rightarrow> Inr (fr @ ch))"
proof (induction acts arbitrary: fr)
  case Nil
  then show ?case by simp
next
  case (Cons a acts)
  show ?case
  proof (cases "expand_one N goal cur path g a []")
    case (Inl e)
    then show ?thesis by (simp add: expand_one_eq[of N goal cur path g a fr])
  next
    case (Inr ch)
    then have 1: "expand_one N goal cur path g a fr = Inr (fr @ ch)"
      by (simp add: expand_one_eq[of N goal cur path g a fr])
    show ?thesis
      using Cons.IH[of "fr @ ch"] Cons.IH[of ch] Inr 1
      by (simp split: sum.splits)
  qed
qed

lemma for_each_expand_children:
  assumes "for_each (expand_one N goal cur path g) acts [] = Inr children"
  shows "list_all2 (\<lambda>act n. \<exists>t h. do_action cur act = Inr t \<and> heuristic N t goal = Inr h \<and>
            n = (int64_add (g + 1) h, t, path @ [t], g + 1)) acts children"
  using assms
proof (induction acts arbitrary: children)
  case Nil
  then show ?case by simp
next
  case (Cons a acts)
  from Cons.prems obtain fr1 where 1: "expand_one N goal cur path g a [] = Inr fr1"
    and 2: "for_each (expand_one N goal cur path g) acts fr1 = Inr children"
    by (auto split: sum.splits)
  from expand_one_Inr[OF 1] obtain t h where t: "do_action cur a = Inr t" "heuristic N t goal = Inr h"
    "fr1 = [(int64_add (g + 1) h, t, path @ [t], g + 1)]" by auto
  from 2 obtain ch where ch: "for_each (expand_one N goal cur path g) acts [] = Inr ch"
    "children = fr1 @ ch"
    by (subst (asm) for_each_expand_append) (auto split: sum.splits)
  from Cons.IH[OF ch(1)] t ch(2) show ?case by simp
qed

lemma same_flow_Inl: "same_flow (Inl e) y \<longleftrightarrow> y = Inl e"
proof (cases y)
  case (Inr fl)
  then show ?thesis by (cases fl) auto
qed auto

lemma same_flow_Return: "same_flow (Inr (Return path)) y \<longleftrightarrow> y = Inr (Return path)"
proof (cases y)
  case (Inr fl)
  then show ?thesis by (cases fl) auto
qed auto

lemma same_flow_Continue:
  "same_flow (Inr (Continue a v)) y \<longleftrightarrow> (\<exists>a'. y = Inr (Continue a' v) \<and> mset a = mset a')"
proof (cases y)
  case (Inr fl)
  then show ?thesis by (cases fl) auto
qed auto

lemma heappop_perm:
  assumes "mset fr = mset fr'" "heappop fr = Inr (n, rest)"
  shows "\<exists>rest'. heappop fr' = Inr (n, rest') \<and> mset rest' = mset rest"
proof -
  have "set fr = set fr'" using assms(1) by (rule mset_eq_setD)
  moreover have "fr' \<noteq> []" using assms by (auto simp: heappop_def)
  ultimately show ?thesis
    using assms by (auto simp: heappop_def Let_def split: if_splits)
qed

lemma iteration_perm:
  assumes "mset fr = mset fr'"
  shows "same_flow (iteration N goal fr vis) (iteration N goal fr' vis)"
proof (cases "fr = []")
  case True
  then have "fr' = []" using assms by simp
  with True show ?thesis by (simp add: iteration_Nil)
next
  case False
  then obtain f cur path g rest where pop: "heappop fr = Inr ((f, cur, path, g), rest)"
    by (cases "heappop fr") (auto simp: heappop_def Let_def split: if_splits)
  from heappop_perm[OF assms pop] obtain rest' where
    pop': "heappop fr' = Inr ((f, cur, path, g), rest')" and r: "mset rest' = mset rest" by blast
  show ?thesis
  proof (cases "for_each (expand_one N goal cur path g) (case available_actions N cur of Inr acts \<Rightarrow> acts | Inl _ \<Rightarrow> []) []")
    case (Inl e)
    then show ?thesis
      using r
      by (simp add: iteration_def pop pop' Let_def for_each_expand_append[of _ _ _ _ _ _ rest]
          for_each_expand_append[of _ _ _ _ _ _ rest'] split: sum.splits)
  next
    case (Inr ch)
    then show ?thesis
      using r
      by (simp add: iteration_def pop pop' Let_def for_each_expand_append[of _ _ _ _ _ _ rest]
          for_each_expand_append[of _ _ _ _ _ _ rest'] split: sum.splits)
  qed
qed

lemma search_loop_perm:
  "mset fr = mset fr' \<Longrightarrow> search_loop N goal fr vis = search_loop N goal fr' vis"
proof (induction N goal fr vis arbitrary: fr' rule: search_loop.induct)
  case (1 N goal fr vis)
  show ?case
  proof (cases "fr = []")
    case True
    then have "fr' = []" using "1.prems" by simp
    with True show ?thesis by simp
  next
    case False
    then have ne': "fr' \<noteq> []" using "1.prems" by auto
    note sf = iteration_perm[OF "1.prems", of N goal vis]
    show ?thesis
    proof (cases "iteration N goal fr vis")
      case (Inl e)
      with sf have "iteration N goal fr' vis = Inl e"
        by (simp add: same_flow_Inl)
      with Inl False ne' show ?thesis
        by (simp add: search_loop.simps[of N goal fr vis] search_loop.simps[of N goal fr' vis])
    next
      case (Inr fl)
      show ?thesis
      proof (cases fl)
        case (Return path)
        with sf Inr have "iteration N goal fr' vis = Inr (Return path)"
          by (simp add: same_flow_Return)
        with Inr Return False ne' show ?thesis
          by (simp add: search_loop.simps[of N goal fr vis] search_loop.simps[of N goal fr' vis])
      next
        case (Continue a v)
        with sf Inr obtain a' where it': "iteration N goal fr' vis = Inr (Continue a' v)"
          and m: "mset a = mset a'"
          by (auto simp: same_flow_Continue)
        from "1.IH"[OF False Inr Continue m]
        have "search_loop N goal a v = search_loop N goal a' v" .
        with Inr Continue it' False ne' show ?thesis
          by (simp add: search_loop.simps[of N goal fr vis] search_loop.simps[of N goal fr' vis])
      qed
    qed
  qed
qed

lemma passes_invariant:
  assumes "passes N goal s s'" "\<forall>n \<in> set (fst s). Q n"
    and "\<And>f cur path g acts act t h.
           available_actions N cur = Inr acts \<Longrightarrow> act \<in> set acts \<Longrightarrow>
           do_action cur act = Inr t \<Longrightarrow> heuristic N t goal = Inr h \<Longrightarrow>
           Q (int64_add (g + 1) h, t, path @ [t], g + 1)"
  shows "\<forall>n \<in> set (fst s'). Q n"
  using assms
proof (induction rule: passes.induct)
  case (passes_refl s)
  then show ?case by simp
next
  case (passes_step frontier visited frontier' visited' s)
  from iteration_Continue[OF passes_step.hyps(1)] obtain f cur p g rest where
    pop: "heappop frontier = Inr ((f, cur, p, g), rest)" and
    cases: "tobytes cur \<in> visited \<and> frontier' = rest \<and> visited' = visited \<or>
            tobytes cur \<notin> visited \<and> visited' = insert (tobytes cur) visited \<and>
            (\<exists>acts. available_actions N cur = Inr acts \<and>
               for_each (expand_one N goal cur p g) acts rest = Inr frontier')" by blast
  note hp = heappop_Inr[OF pop]
  have Qrest: "\<forall>n \<in> set rest. Q n"
    using hp(2) passes_step.prems(1) set_remove1_subset by fastforce
  have "\<forall>n \<in> set frontier'. Q n"
    using cases
  proof (elim disjE conjE exE)
    assume "frontier' = rest" then show ?thesis using Qrest by simp
  next
    fix acts
    assume a: "available_actions N cur = Inr acts"
      "for_each (expand_one N goal cur p g) acts rest = Inr frontier'"
    show ?thesis
    proof
      fix n assume "n \<in> set frontier'"
      with for_each_expand_nodes[OF a(2)] have "n \<in> set rest \<or>
           (\<exists>act \<in> set acts. \<exists>t h. do_action cur act = Inr t \<and> heuristic N t goal = Inr h \<and>
              n = (int64_add (g + 1) h, t, p @ [t], g + 1))" by blast
      then show "Q n"
        using Qrest passes_step.prems(2)[OF a(1)] by auto
    qed
  qed
  then show ?case
    using passes_step.IH passes_step.prems(2) by simp
qed

lemma is_heappop_heappop:
  assumes "is_heappop fr item rest"
  shows "\<exists>rest0. heappop fr = Inr (item, rest0) \<and> mset rest0 = mset rest"
proof -
  have i: "item \<in> set fr" "\<forall>n \<in> set fr. item \<le> n" "mset rest = mset fr - {#item#}"
    using assms by (simp_all add: is_heappop_def)
  have "Min (set fr) = item"
    using i(1,2) by (intro Min_eqI) auto
  moreover have "fr \<noteq> []" using i(1) by auto
  ultimately show ?thesis
    using i(3) by (simp add: heappop_def)
qed

lemma heappop_is_heappop:
  assumes "heappop fr = Inr (item, rest)"
  shows "is_heappop fr item rest"
  using heappop_Inr[OF assms] by (simp add: is_heappop_def)

lemma iteration_popped:
  assumes "heappop fr = Inr ((f, cur, path, g), rest)"
  shows "iteration N goal fr vis =
     (if array_equal cur goal then Inr (Return path)
      else if tobytes cur \<in> vis then Inr (Continue rest vis)
      else (case available_actions N cur of
              Inl e \<Rightarrow> Inl e
            | Inr acts \<Rightarrow>
                (case for_each (expand_one N goal cur path g) acts rest of
                   Inl e \<Rightarrow> Inl e
                 | Inr fr2 \<Rightarrow> Inr (Continue fr2 (insert (tobytes cur) vis)))))"
  using assms by (simp add: iteration_def Let_def)

lemma expands_for_each:
  assumes "expands N goal cur path g acts fr r" "mset fr0 = mset fr"
  shows "(\<forall>e. r = Inl e \<longrightarrow> for_each (expand_one N goal cur path g) acts fr0 = Inl e) \<and>
         (\<forall>fr'. r = Inr fr' \<longrightarrow>
            (\<exists>fr0'. for_each (expand_one N goal cur path g) acts fr0 = Inr fr0' \<and>
               mset fr0' = mset fr'))"
  using assms
proof (induction arbitrary: fr0 rule: expands.induct)
  case (expands_done frontier)
  then show ?case by simp
next
  case (expands_raise_action act e acts frontier)
  then show ?case by (simp add: expand_one_def)
next
  case (expands_raise_heuristic act new_state e acts frontier)
  then show ?case by (simp add: expand_one_def)
next
  case (expands_push act new_state h frontier frontier' acts r)
  let ?n = "(int64_add (g + 1) h, new_state, path @ [new_state], g + 1)"
  have 1: "expand_one N goal cur path g act fr0 = Inr (fr0 @ [?n])"
    using expands_push.hyps(1,2) by (simp add: expand_one_def heappush_def Let_def)
  have "mset (fr0 @ [?n]) = mset frontier'"
    using expands_push.hyps(3) expands_push.prems by (simp add: is_heappush_def)
  from expands_push.IH[OF this] 1 show ?case by simp
qed

lemma for_each_expands:
  "expands N goal cur path g acts fr (for_each (expand_one N goal cur path g) acts fr)"
proof (induction acts arbitrary: fr)
  case Nil
  then show ?case by (simp add: expands_done)
next
  case (Cons act acts)
  show ?case
  proof (cases "do_action cur act")
    case (Inl e)
    then show ?thesis by (simp add: expand_one_def expands_raise_action)
  next
    case (Inr new_state)
    show ?thesis
    proof (cases "heuristic N new_state goal")
      case (Inl e)
      with Inr show ?thesis by (simp add: expand_one_def expands_raise_heuristic)
    next
      case h: (Inr h)
      let ?n = "(int64_add (g + 1) h, new_state, path @ [new_state], g + 1)"
      have 1: "expand_one N goal cur path g act fr = Inr (fr @ [?n])"
        using Inr h by (simp add: expand_one_def heappush_def Let_def)
      have "is_heappush fr ?n (fr @ [?n])"
        by (simp add: is_heappush_def)
      from expands_push[OF Inr h this Cons.IH[of "fr @ [?n]"]] 1
      show ?thesis by simp
    qed
  qed
qed

lemma searches_sound:
  "searches is_heappop N goal fr vis r \<Longrightarrow> r = search_loop N goal fr vis"
proof (induction rule: searches.induct)
  case (searches_exhausted visited)
  then show ?case by (simp add: search_loop.simps)
next
  case (searches_return frontier f_cost current_state path g_cost rest visited)
  from is_heappop_heappop[OF searches_return.hyps(1)] obtain rest0 where
    pop: "heappop frontier = Inr ((f_cost, current_state, path, g_cost), rest0)" by blast
  have "frontier \<noteq> []" using pop by (auto simp: heappop_def)
  then show ?case
    using searches_return.hyps(2)
    by (simp add: search_loop.simps[of N goal frontier] iteration_popped[OF pop])
next
  case (searches_continue frontier f_cost current_state path g_cost rest visited r)
  from is_heappop_heappop[OF searches_continue.hyps(1)] obtain rest0 where
    pop: "heappop frontier = Inr ((f_cost, current_state, path, g_cost), rest0)"
    and m: "mset rest0 = mset rest" by blast
  have "frontier \<noteq> []" using pop by (auto simp: heappop_def)
  then have "search_loop N goal frontier visited = search_loop N goal rest0 visited"
    using searches_continue.hyps(2,3)
    by (simp add: search_loop.simps[of N goal frontier] iteration_popped[OF pop])
  with search_loop_perm[OF m] searches_continue.IH show ?case by simp
next
  case (searches_raise_actions frontier f_cost current_state path g_cost rest visited e)
  from is_heappop_heappop[OF searches_raise_actions.hyps(1)] obtain rest0 where
    pop: "heappop frontier = Inr ((f_cost, current_state, path, g_cost), rest0)" by blast
  have "frontier \<noteq> []" using pop by (auto simp: heappop_def)
  then show ?case
    using searches_raise_actions.hyps(2-4)
    by (simp add: search_loop.simps[of N goal frontier] iteration_popped[OF pop])
next
  case (searches_raise_expand frontier f_cost current_state path g_cost rest visited acts e)
  from is_heappop_heappop[OF searches_raise_expand.hyps(1)] obtain rest0 where
    pop: "heappop frontier = Inr ((f_cost, current_state, path, g_cost), rest0)"
    and m: "mset rest0 = mset rest" by blast
  have "frontier \<noteq> []" using pop by (auto simp: heappop_def)
  moreover have "for_each (expand_one N goal current_state path g_cost) acts rest0 = Inl e"
    using expands_for_each[OF searches_raise_expand.hyps(5) m] by simp
  ultimately show ?case
    using searches_raise_expand.hyps(2-4)
    by (simp add: search_loop.simps[of N goal frontier] iteration_popped[OF pop])
next
  case (searches_expand frontier f_cost current_state path g_cost rest visited acts frontier' r)
  from is_heappop_heappop[OF searches_expand.hyps(1)] obtain rest0 where
    pop: "heappop frontier = Inr ((f_cost, current_state, path, g_cost), rest0)"
    and m: "mset rest0 = mset rest" by blast
  have ne: "frontier \<noteq> []" using pop by (auto simp: heappop_def)
  from expands_for_each[OF searches_expand.hyps(5) m] obtain fr0' where
    e: "for_each (expand_one N goal current_state path g_cost) acts rest0 = Inr fr0'"
    and m': "mset fr0' = mset frontier'" by auto
  have "search_loop N goal frontier visited =
      search_loop N goal fr0' (insert (tobytes current_state) visited)"
    using ne searches_expand.hyps(2-4) e
    by (simp add: search_loop.simps[of N goal frontier] iteration_popped[OF pop])
  with search_loop_perm[OF m'] searches_expand.IH show ?case by simp
qed

lemma searches_complete:
  "searches is_heappop N goal fr vis (search_loop N goal fr vis)"
proof (induction N goal fr vis rule: search_loop.induct)
  case (1 N goal fr vis)
  show ?case
  proof (cases "fr = []")
    case True
    then show ?thesis by (simp add: search_loop.simps searches_exhausted)
  next
    case False
    then obtain f cur path g rest where pop: "heappop fr = Inr ((f, cur, path, g), rest)"
      by (cases "heappop fr") (auto simp: heappop_def Let_def split: if_splits)
    note hp = heappop_is_heappop[OF pop]
    note it = iteration_popped[OF pop, of N goal vis]
    note sl = search_loop.simps[of N goal fr vis]
    consider (ret) "array_equal cur goal"
      | (skip) "\<not> array_equal cur goal" "tobytes cur \<in> vis"
      | (raise) e where "\<not> array_equal cur goal" "tobytes cur \<notin> vis" "available_actions N cur = Inl e"
      | (exp) acts where "\<not> array_equal cur goal" "tobytes cur \<notin> vis" "available_actions N cur = Inr acts"
      by (cases "available_actions N cur") auto
    then show ?thesis
    proof cases
      case ret
      then show ?thesis
        using False by (simp add: sl it searches_return[where pop = is_heappop, OF hp])
    next
      case skip
      then have i: "iteration N goal fr vis = Inr (Continue rest vis)"
        by (simp add: it)
      from "1.IH"[OF False i refl] have "searches is_heappop N goal rest vis (search_loop N goal rest vis)" .
      from searches_continue[where pop = is_heappop, OF hp skip this] show ?thesis
        using False i by (simp add: sl)
    next
      case raise
      then show ?thesis
        using False by (simp add: sl it searches_raise_actions[where pop = is_heappop, OF hp])
    next
      case exp
      note ex = for_each_expands[of N goal cur path g acts rest]
      show ?thesis
      proof (cases "for_each (expand_one N goal cur path g) acts rest")
        case (Inl e)
        with ex have "expands N goal cur path g acts rest (Inl e)" by simp
        from searches_raise_expand[where pop = is_heappop, OF hp exp this] show ?thesis
          using False exp Inl by (simp add: sl it)
      next
        case (Inr fr2)
        with ex have x: "expands N goal cur path g acts rest (Inr fr2)" by simp
        have i: "iteration N goal fr vis = Inr (Continue fr2 (insert (tobytes cur) vis))"
          using exp Inr by (simp add: it)
        from "1.IH"[OF False i refl]
        have "searches is_heappop N goal fr2 (insert (tobytes cur) vis)
            (search_loop N goal fr2 (insert (tobytes cur) vis))" .
        from searches_expand[where pop = is_heappop, OF hp exp x this] show ?thesis
          using False i by (simp add: sl)
      qed
    qed
  qed
qed

text \<open>With ties left open the relation is not a function: two runs from one frontier
  return different paths.\<close>

lemma least_f_pop_not_deterministic:
  "searches least_f_pop N [[0]] [(1, [[0]], [[[1]], [[0]]], 1), (1, [[0]], [[[2]], [[0]]], 1)] {}
     (Inr (Some [[[1]], [[0]]])) \<and>
   searches least_f_pop N [[0]] [(1, [[0]], [[[1]], [[0]]], 1), (1, [[0]], [[[2]], [[0]]], 1)] {}
     (Inr (Some [[[2]], [[0]]]))"
proof
  have 1: "least_f_pop [(1, [[0]], [[[1]], [[0]]], 1), (1, [[0]], [[[2]], [[0]]], 1)]
      (1, [[0]], [[[1]], [[0]]], 1) [(1, [[0]], [[[2]], [[0]]], 1)]"
    by (simp add: least_f_pop_def)
  have 2: "least_f_pop [(1, [[0]], [[[1]], [[0]]], 1), (1, [[0]], [[[2]], [[0]]], 1)]
      (1, [[0]], [[[2]], [[0]]], 1) [(1, [[0]], [[[1]], [[0]]], 1)]"
    by (simp add: least_f_pop_def)
  have g: "array_equal [[0]] [[0]]"
    by (simp add: array_equal_def)
  show "searches least_f_pop N [[0]] [(1, [[0]], [[[1]], [[0]]], 1), (1, [[0]], [[[2]], [[0]]], 1)] {}
     (Inr (Some [[[1]], [[0]]]))"
    by (rule searches_return[where pop = least_f_pop, OF 1 g])
  show "searches least_f_pop N [[0]] [(1, [[0]], [[[1]], [[0]]], 1), (1, [[0]], [[[2]], [[0]]], 1)] {}
     (Inr (Some [[[2]], [[0]]]))"
    by (rule searches_return[where pop = least_f_pop, OF 2 g])
qed

subsection \<open>Claims\<close>

text \<open>
  C2. For every configuration \<open>s\<close>, \<^verbatim>\<open>solve_puzzle(s, s)\<close> returns exactly the
  one-element path \<open>[s]\<close>: the goal test is made on the popped start node before any
  expansion. A configuration holds the blank, so it has at least one row.
\<close>

theorem solve_puzzle_start_is_goal:
  "s \<noteq> [] \<Longrightarrow> solve_puzzle N s s = Inr (Some [s])"
  by (simp add: solve_puzzle_eq search_loop.simps iteration_def heappop_def
      array_equal_def)

theorem solve_puzzle_start_is_goal_witness:
  "[[1, 2], [0, 3]] \<noteq> ([] :: grid) \<and>
   solve_puzzle 2 [[1, 2], [0, 3]] [[1, 2], [0, 3]] = Inr (Some [[[1, 2], [0, 3]]])"
  using solve_puzzle_start_is_goal [of "[[1, 2], [0, 3]]" 2] by simp

text \<open>
  C5. For every configuration \<open>c\<close> of dimension \<open>N\<close> and every move \<open>m\<close> in
  \<^verbatim>\<open>available_actions(c)\<close>, applying \<open>m\<close> twice gives \<open>c\<close> back: both applications
  succeed and the second returns \<open>c\<close>.
\<close>

theorem do_action_self_inverse:
  assumes "is_grid N c" "available_actions N c = Inr acts" "m \<in> set acts"
  shows "\<exists>c'. do_action c m = Inr c' \<and> do_action c' m = Inr c"
proof -
  from do_action_defined[OF available_move_in_range(1-4)[OF assms]]
  obtain c' where "do_action c m = Inr c'" ..
  then show ?thesis using do_action_twice by blast
qed

theorem do_action_self_inverse_witness:
  "is_grid 2 [[1, 2], [0, 3]] \<and>
   available_actions 2 [[1, 2], [0, 3]] = Inr [Action (1, 0) (0, 0), Action (1, 0) (1, 1)] \<and>
   Action (1, 0) (1, 1) \<in> set [Action (1, 0) (0, 0), Action (1, 0) (1, 1)] \<and>
   do_action [[1, 2], [0, 3]] (Action (1, 0) (1, 1)) = Inr [[1, 2], [3, 0]] \<and>
   do_action [[1, 2], [3, 0]] (Action (1, 0) (1, 1)) = Inr [[1, 2], [0, 3]]"
proof -
  have g: "is_grid 2 [[1, 2], [0, 3]]"
    by (simp add: is_grid_def)
  have a: "available_actions 2 [[1, 2], [0, 3]] = Inr [Action (1, 0) (0, 0), Action (1, 0) (1, 1)]"
    by code_simp
  have m: "Action (1, 0) (1, 1) \<in> set [Action (1, 0) (0, 0), Action (1, 0) (1, 1)]"
    by simp
  have d: "do_action [[1, 2], [0, 3]] (Action (1, 0) (1, 1)) = Inr [[1, 2], [3, 0]]"
    by code_simp
  from do_action_self_inverse[OF g a m] d g a m show ?thesis by simp
qed

text \<open>
  C6. For every configuration of dimension \<open>N > 1\<close> with exactly one zero, at \<open>(x, y)\<close>,
  \<^verbatim>\<open>available_actions\<close> returns 2 moves when the blank is in a corner, 3 when it is on
  the border outside the corners and 4 when it is inside; never fewer than 2 nor more
  than 4.
\<close>

theorem available_actions_count:
  assumes "is_grid N c" "1 < N" "count_list (concat c) 0 = 1"
    and "x < N" "y < N" "c ! x ! y = 0"
  shows "\<exists>acts. available_actions N c = Inr acts \<and>
           length acts =
             (if (x = 0 \<or> x = N - 1) \<and> (y = 0 \<or> y = N - 1) then 2
              else if x = 0 \<or> x = N - 1 \<or> y = 0 \<or> y = N - 1 then 3
              else 4) \<and>
           2 \<le> length acts \<and> length acts \<le> 4"
proof -
  have "x < length c" "y < length (c ! x)"
    using assms(1,4,5) by (auto simp: is_grid_def list_all_length)
  from unique_blank[OF assms(3) this assms(6)] have "where_eq0 c = [(x, y)]" .
  then show ?thesis
    using assms(2,4,5) by (auto simp: available_actions_def)
qed

theorem available_actions_count_witness:
  "is_grid 3 [[1, 2, 3], [4, 0, 6], [7, 5, 8]] \<and> (1::nat) < 3 \<and>
   count_list (concat [[1, 2, 3], [4, 0, 6], [7, 5, 8 :: int]]) 0 = 1 \<and>
   [[1, 2, 3], [4, 0, 6], [7, 5, 8 :: int]] ! 1 ! 1 = 0 \<and>
   (\<exists>acts. available_actions 3 [[1, 2, 3], [4, 0, 6], [7, 5, 8]] = Inr acts \<and> length acts = 4) \<and>
   is_grid PUZZLE_DIM
     [[1, 2, 3, 4, 5], [6, 7, 8, 9, 10], [11, 12, 13, 14, 15], [16, 17, 18, 19, 20],
      [21, 22, 23, 24, 0]] \<and>
   1 < PUZZLE_DIM \<and> 4 < PUZZLE_DIM \<and>
   (\<exists>acts. available_actions PUZZLE_DIM
      [[1, 2, 3, 4, 5], [6, 7, 8, 9, 10], [11, 12, 13, 14, 15], [16, 17, 18, 19, 20],
       [21, 22, 23, 24, 0]] = Inr acts \<and> length acts = 2)"
proof -
  have g: "is_grid 3 [[1, 2, 3], [4, 0, 6], [7, 5, 8]]"
    by (simp add: is_grid_def)
  have n: "(1::nat) < 3" by simp
  have z: "count_list (concat [[1, 2, 3], [4, 0, 6], [7, 5, 8 :: int]]) 0 = 1"
    by simp
  have b: "[[1, 2, 3], [4, 0, 6], [7, 5, 8 :: int]] ! 1 ! 1 = 0"
    by simp
  from available_actions_count[OF g n z n n b]
  have inside: "\<exists>acts. available_actions 3 [[1, 2, 3], [4, 0, 6], [7, 5, 8]] = Inr acts \<and>
      length acts = 4"
    by auto
  let ?goal = "[[1, 2, 3, 4, 5], [6, 7, 8, 9, 10], [11, 12, 13, 14, 15], [16, 17, 18, 19, 20],
      [21, 22, 23, 24, 0 :: int]]"
  have g5: "is_grid PUZZLE_DIM ?goal"
    by (simp add: is_grid_def PUZZLE_DIM_def)
  have n5: "1 < PUZZLE_DIM" "4 < PUZZLE_DIM"
    by (simp_all add: PUZZLE_DIM_def)
  have z5: "count_list (concat ?goal) 0 = 1"
    by simp
  have b5: "?goal ! 4 ! 4 = 0"
    by simp
  from available_actions_count[OF g5 n5(1) z5 n5(2) n5(2) b5]
  have corner: "\<exists>acts. available_actions PUZZLE_DIM ?goal = Inr acts \<and> length acts = 2"
    by (auto simp: PUZZLE_DIM_def)
  from g n z b inside g5 n5 corner show ?thesis
    by (intro conjI)
qed

text \<open>
  C7. For every array \<open>state\<close> of the store that holds a configuration of dimension \<open>N\<close>
  and every move \<open>m\<close> in its \<^verbatim>\<open>available_actions\<close>, \<^verbatim>\<open>do_action\<close> returns a newly
  allocated array in which the cells at the two coordinates of \<open>m\<close> are swapped and every
  other cell is as in \<open>state\<close>; every array that was in the store before the call, the
  argument among them, is unchanged.
\<close>

theorem do_action_on_swaps_copy:
  assumes "state < length h" "is_grid N (h ! state)"
    and "available_actions N (h ! state) = Inr acts" "m \<in> set acts"
  shows "\<exists>h' new_state. do_action_on h state m = Inr (h', new_state) \<and>
           new_state = length h \<and> length h' = Suc (length h) \<and>
           (\<forall>a < length h. h' ! a = h ! a) \<and>
           getitem (h' ! new_state) (pos1 m) = getitem (h ! state) (pos2 m) \<and>
           getitem (h' ! new_state) (pos2 m) = getitem (h ! state) (pos1 m) \<and>
           (\<forall>p. p \<noteq> pos1 m \<and> p \<noteq> pos2 m \<longrightarrow> getitem (h' ! new_state) p = getitem (h ! state) p) \<and>
           do_action (h ! state) m = Inr (h' ! new_state)"
proof -
  note r = available_move_in_range(1-4)[OF assms(2-4)]
  from do_action_defined[OF r] obtain c' where c': "do_action (h ! state) m = Inr c'" ..
  note f = do_action_Inr[OF c']
  have on: "do_action_on h state m = Inr (h @ [c'], length h)"
    using assms(1) c' by (simp add: do_action_on_eq)
  have 1: "getitem c' (pos1 m) = getitem (h ! state) (pos2 m)"
    using f(1-6) f(7)[OF f(1,2)] by (cases "pos1 m"; cases "pos2 m") (auto simp: getitem_def)
  have 2: "getitem c' (pos2 m) = getitem (h ! state) (pos1 m)"
    using f(1-6) f(7)[OF f(3,4)] by (cases "pos1 m"; cases "pos2 m") (auto simp: getitem_def)
  have 3: "getitem c' p = getitem (h ! state) p" if "p \<noteq> pos1 m \<and> p \<noteq> pos2 m" for p
    using that f(5) f(6)[of "fst p"] f(7)[of "fst p" "snd p"]
    by (cases p) (auto simp: getitem_def)
  show ?thesis
    using on c' 1 2 3 by (simp add: nth_append)
qed

theorem do_action_on_swaps_copy_witness:
  "(0::nat) < length [[[1, 2], [0, 3 :: int]]] \<and> is_grid 2 ([[[1, 2], [0, 3]]] ! 0) \<and>
   available_actions 2 ([[[1, 2], [0, 3]]] ! 0) = Inr [Action (1, 0) (0, 0), Action (1, 0) (1, 1)] \<and>
   Action (1, 0) (1, 1) \<in> set [Action (1, 0) (0, 0), Action (1, 0) (1, 1)] \<and>
   do_action_on [[[1, 2], [0, 3]]] 0 (Action (1, 0) (1, 1)) =
     Inr ([[[1, 2], [0, 3]], [[1, 2], [3, 0]]], 1)"
proof -
  have l: "(0::nat) < length [[[1, 2], [0, 3 :: int]]]"
    by simp
  have g: "is_grid 2 ([[[1, 2], [0, 3]]] ! 0)"
    by (simp add: is_grid_def)
  have a: "available_actions 2 ([[[1, 2], [0, 3]]] ! 0) =
      Inr [Action (1, 0) (0, 0), Action (1, 0) (1, 1)]"
    by code_simp
  have m: "Action (1, 0) (1, 1) \<in> set [Action (1, 0) (0, 0), Action (1, 0) (1, 1)]"
    by simp
  have d: "do_action_on [[[1, 2], [0, 3]]] 0 (Action (1, 0) (1, 1)) =
      Inr ([[[1, 2], [0, 3]], [[1, 2], [3, 0]]], 1)"
    by code_simp
  from do_action_on_swaps_copy[OF l g a m] d l g a m show ?thesis by simp
qed

text \<open>
  C4. For every configuration \<open>c\<close> and goal \<open>g\<close> of dimension \<open>N\<close>, \<^verbatim>\<open>heuristic(c, g)\<close>
  is the sum over the non-blank cells (value \<open>v\<close> at row \<open>x\<close>, column \<open>y\<close>) of
  \<open>|x - (v - 1) div N| + |y - (v - 1) mod N|\<close>, plus twice the number of non-blank cells
  whose value differs from the goal's at the same place; the result is not negative.
  The cells of \<open>c\<close> are those of a configuration (\<open>0 .. N\<^sup>2 - 1\<close>), and \<open>N\<close> is below
  \<open>2\<^sup>2\<^sup>0\<close>, so that no sum of the loop leaves the 64 bits.
\<close>

theorem heuristic_formula:
  assumes "invariant N c" "is_grid N g" "N < 2 ^ 20"
  shows "heuristic N c g = Inr (heuristic_spec N c g) \<and> 0 \<le> heuristic_spec N c g"
proof -
  let ?d = "\<lambda>x y. if c ! x ! y \<noteq> 0
                then \<bar>int x - (c ! x ! y - 1) div int N\<bar> + \<bar>int y - (c ! x ! y - 1) mod int N\<bar>
                else 0"
  let ?k = "\<lambda>x y. if c ! x ! y \<noteq> 0 \<and> c ! x ! y \<noteq> g ! x ! y then 1 else (0::int)"
  let ?D = "\<lambda>x. \<Sum>y \<leftarrow> [0..<N]. ?d x y"
  let ?K = "\<lambda>x. \<Sum>y \<leftarrow> [0..<N]. ?k x y"
  have n: "0 \<le> int N" "int N \<le> 2 ^ 20" using assms(3) by simp_all
  have d0: "0 \<le> ?d x y" for x y by simp
  have d1: "?d x y \<le> 2 * int N" if "x < N" "y < N" for x y
    using manhattan_term_bound[OF assms(1) that] by simp
  have D0: "0 \<le> ?D x" for x
    by (intro sum_list_nonneg) auto
  have D1: "?D x \<le> int N * (2 * int N)" if "x < N" for x
    using sum_list_le[of "[0..<N]" "?d x" "2 * int N"] d1[OF that] by simp
  have M0: "0 \<le> (\<Sum>x \<leftarrow> [0..<N]. ?D x)"
    by (intro sum_list_nonneg) (use D0 in auto)
  have M1: "(\<Sum>x \<leftarrow> [0..<N]. ?D x) \<le> int N * (int N * (2 * int N))"
    using sum_list_le[of "[0..<N]" ?D "int N * (2 * int N)"] D1 by simp
  have K0: "0 \<le> (\<Sum>x \<leftarrow> [0..<N]. ?K x)"
    by (intro sum_list_nonneg) (auto intro!: sum_list_nonneg)
  have "?K x \<le> int N * 1" for x
    using sum_list_le[of "[0..<N]" "?k x" 1] by simp
  then have K1: "(\<Sum>x \<leftarrow> [0..<N]. ?K x) \<le> int N * (int N * 1)"
    using sum_list_le[of "[0..<N]" ?K "int N * 1"] by simp
  have "int N * (2 * int N) \<le> 2 ^ 20 * (2 * 2 ^ 20)"
    using n by (intro mult_mono) auto
  then have "int N * (int N * (2 * int N)) \<le> 2 ^ 20 * (2 ^ 20 * (2 * 2 ^ 20))"
    using n by (intro mult_mono) auto
  with M1 have Mb: "(\<Sum>x \<leftarrow> [0..<N]. ?D x) \<le> 2 ^ 61"
    by simp
  have "int N * (int N * 1) \<le> 2 ^ 20 * (2 ^ 20 * 1)"
    using n by (intro mult_mono) auto
  with K1 have Kb: "(\<Sum>x \<leftarrow> [0..<N]. ?K x) \<le> 2 ^ 40"
    by simp
  have inner: "for_each (\<lambda>y. heuristic_cell N c g x y) [0..<N] (md, mc) =
      Inr (md + ?D x, mc + ?K x)"
    if "x \<in> set [0..<N]" "0 \<le> md" "md + ?D x < 2 ^ 63" for x md mc
  proof (rule for_each_sums_bounded[where B = "2 ^ 63"])
    fix y md mc
    assume "y \<in> set [0..<N]" and md: "0 \<le> md" "md + ?d x y < 2 ^ 63"
    then have "x < N" "y < N"
      using that(1) by simp_all
    then show "heuristic_cell N c g x y (md, mc) = Inr (md + ?d x y, mc + ?k x y)"
      using md by (intro heuristic_cell_config[OF assms])
  next
    show "0 \<le> md" "md + ?D x < 2 ^ 63" using that by simp_all
  qed simp
  have outer: "for_each (\<lambda>x. for_each (\<lambda>y. heuristic_cell N c g x y) [0..<N]) [0..<N] (0, 0) =
      Inr (0 + (\<Sum>x \<leftarrow> [0..<N]. ?D x), 0 + (\<Sum>x \<leftarrow> [0..<N]. ?K x))"
  proof (rule for_each_sums_bounded[where B = "2 ^ 63"])
    show "0 + (\<Sum>x \<leftarrow> [0..<N]. ?D x) < 2 ^ 63" using Mb by simp
  qed (use inner D0 in auto)
  have m: "(\<Sum>(x, y) \<leftarrow> nonblank_cells N c.
        \<bar>int x - (c ! x ! y - 1) div int N\<bar> + \<bar>int y - (c ! x ! y - 1) mod int N\<bar>) =
      (\<Sum>x \<leftarrow> [0..<N]. ?D x)"
    by (simp add: nonblank_cells_def sum_list_filter_product cong: if_cong)
  have "filter (\<lambda>(x, y). c ! x ! y \<noteq> g ! x ! y) (nonblank_cells N c) =
      filter (\<lambda>(x, y). c ! x ! y \<noteq> 0 \<and> c ! x ! y \<noteq> g ! x ! y) (List.product [0..<N] [0..<N])"
    by (auto simp: nonblank_cells_def intro: filter_cong)
  then have k: "int (length (filter (\<lambda>(x, y). c ! x ! y \<noteq> g ! x ! y) (nonblank_cells N c))) =
      (\<Sum>x \<leftarrow> [0..<N]. ?K x)"
    by (simp add: length_filter_as_sum sum_list_filter_product del: length_filter_conv_card cong: if_cong)
  have w: "int64_add (\<Sum>x \<leftarrow> [0..<N]. ?D x) (2 * (\<Sum>x \<leftarrow> [0..<N]. ?K x)) =
      (\<Sum>x \<leftarrow> [0..<N]. ?D x) + 2 * (\<Sum>x \<leftarrow> [0..<N]. ?K x)"
    unfolding int64_add_def using M0 Mb K0 Kb by (intro wrap64_id) simp_all
  have eq: "heuristic N c g = Inr (heuristic_spec N c g)"
    by (simp add: heuristic_def outer heuristic_spec_def m k w del: length_filter_conv_card)
  have "0 \<le> heuristic_spec N c g"
    unfolding heuristic_spec_def m using M0 by simp
  with eq show ?thesis by simp
qed

theorem heuristic_formula_witness:
  "invariant 2 [[1, 2], [0, 3]] \<and> is_grid 2 [[1, 2], [3, 0]] \<and> (2::nat) < 2 ^ 20 \<and>
   heuristic 2 [[1, 2], [0, 3]] [[1, 2], [3, 0]] = Inr 3 \<and>
   heuristic_spec 2 [[1, 2], [0, 3]] [[1, 2], [3, 0]] = 3"
proof -
  have c: "invariant 2 [[1, 2], [0, 3]]"
    by code_simp
  have g: "is_grid 2 [[1, 2], [3, 0]]"
    by (simp add: is_grid_def)
  have n: "(2::nat) < 2 ^ 20"
    by simp
  have v: "heuristic 2 [[1, 2], [0, 3]] [[1, 2], [3, 0]] = Inr 3"
    by code_simp
  from heuristic_formula[OF c g n] v c g n show ?thesis by simp
qed


text \<open>
  C1. For every start and goal, if \<^verbatim>\<open>solve_puzzle\<close> returns a path, the path begins with
  the start configuration, ends with the goal configuration, and each configuration after
  the first is obtained from its predecessor by one move of \<^verbatim>\<open>available_actions\<close> of that
  predecessor.
\<close>

theorem solve_puzzle_sound:
  assumes "solve_puzzle N start goal = Inr (Some path)"
  shows "path \<noteq> [] \<and> hd path = start \<and> last path = goal \<and> moves_chain N path"
proof -
  have run: "search_loop N goal [(0, start, [start], 0)] {} = Inr (Some path)"
    using assms by (simp add: solve_puzzle_eq)
  have "\<exists>f g. node_ok N start (f, goal, path, g)"
  proof (rule search_loop_invariant[OF run])
    show "\<forall>n \<in> set [(0, start, [start], 0)]. node_ok N start n"
      by (simp add: node_ok_def)
  next
    fix f cur path g acts act t h
    assume "node_ok N start (f, cur, path, g)" "available_actions N cur = Inr acts" "act \<in> set acts"
      "do_action cur act = Inr t"
    then show "node_ok N start (int64_add (g + 1) h, t, path @ [t], g + 1)"
      by (auto simp: node_ok_def valid_step_def intro!: moves_chain_snoc)
  qed
  then show ?thesis by (simp add: node_ok_def)
qed

theorem solve_puzzle_sound_witness:
  "solve_puzzle 2 [[1, 2], [0, 3]] [[1, 2], [3, 0]] = Inr (Some [[[1, 2], [0, 3]], [[1, 2], [3, 0]]]) \<and>
   moves_chain 2 [[[1, 2], [0, 3]], [[1, 2], [3, 0]]]"
proof -
  have s: "solve_puzzle 2 [[1, 2], [0, 3]] [[1, 2], [3, 0]] = Inr (Some [[[1, 2], [0, 3]], [[1, 2], [3, 0]]])"
    by code_simp
  from solve_puzzle_sound[OF s] s show ?thesis by simp
qed

text \<open>
  C8. For every configuration \<open>c\<close> that satisfies the invariant of the data model and every
  \<open>m\<close> in \<^verbatim>\<open>available_actions(c)\<close>, \<^verbatim>\<open>do_action(c, m)\<close> satisfies it too; hence every
  configuration of a returned path satisfies it when the start does.
\<close>

theorem invariant_preserved:
  "(invariant N c \<and> available_actions N c = Inr acts \<and> m \<in> set acts \<longrightarrow>
      (\<exists>c'. do_action c m = Inr c' \<and> invariant N c')) \<and>
   (invariant N start \<and> solve_puzzle N start goal = Inr (Some path) \<longrightarrow>
      (\<forall>c \<in> set path. invariant N c))"
proof (intro conjI impI; elim conjE)
  assume i: "invariant N c" and a: "available_actions N c = Inr acts" "m \<in> set acts"
  have g: "is_grid N c" using i by (simp add: invariant_def)
  from do_action_defined[OF available_move_in_range(1-4)[OF g a]]
  obtain c' where c': "do_action c m = Inr c'" ..
  from invariant_cells[OF i do_action_is_grid[OF c' g] do_action_cells[OF c']] c'
  show "\<exists>c'. do_action c m = Inr c' \<and> invariant N c'" by blast
next
  assume i: "invariant N start" and s: "solve_puzzle N start goal = Inr (Some path)"
  let ?P = "\<lambda>n :: node. fst (snd n) \<in> set (fst (snd (snd n))) \<and>
      (\<forall>c \<in> set (fst (snd (snd n))). invariant N c)"
  have run: "search_loop N goal [(0, start, [start], 0)] {} = Inr (Some path)"
    using s by (simp add: solve_puzzle_eq)
  have "\<exists>f g. ?P (f, goal, path, g)"
  proof (rule search_loop_invariant[OF run, where P = ?P])
    show "\<forall>n \<in> set [(0, start, [start], 0)]. ?P n"
      using i by simp
  next
    fix f cur path g acts act t h
    assume p: "?P (f, cur, path, g)" and a: "available_actions N cur = Inr acts" "act \<in> set acts"
      and t: "do_action cur act = Inr t"
    from p have ic: "invariant N cur" by simp
    then have "is_grid N cur" by (simp add: invariant_def)
    from invariant_cells[OF ic do_action_is_grid[OF t this] do_action_cells[OF t]]
    show "?P (int64_add (g + 1) h, t, path @ [t], g + 1)"
      using p by simp
  qed
  then show "\<forall>c \<in> set path. invariant N c" by simp
qed

theorem invariant_preserved_witness:
  "invariant 2 [[1, 2], [0, 3]] \<and>
   available_actions 2 [[1, 2], [0, 3]] = Inr [Action (1, 0) (0, 0), Action (1, 0) (1, 1)] \<and>
   Action (1, 0) (1, 1) \<in> set [Action (1, 0) (0, 0), Action (1, 0) (1, 1)] \<and>
   solve_puzzle 2 [[1, 2], [0, 3]] [[1, 2], [3, 0]] = Inr (Some [[[1, 2], [0, 3]], [[1, 2], [3, 0]]]) \<and>
   (\<exists>c'. do_action [[1, 2], [0, 3]] (Action (1, 0) (1, 1)) = Inr c' \<and> invariant 2 c') \<and>
   invariant 2 [[1, 2], [3, 0]]"
proof -
  have i: "invariant 2 [[1, 2], [0, 3]]"
    by code_simp
  have a: "available_actions 2 [[1, 2], [0, 3]] = Inr [Action (1, 0) (0, 0), Action (1, 0) (1, 1)]"
    by code_simp
  have m: "Action (1, 0) (1, 1) \<in> set [Action (1, 0) (0, 0), Action (1, 0) (1, 1)]"
    by simp
  have s: "solve_puzzle 2 [[1, 2], [0, 3]] [[1, 2], [3, 0]] = Inr (Some [[[1, 2], [0, 3]], [[1, 2], [3, 0]]])"
    by code_simp
  from invariant_preserved[of 2 "[[1, 2], [0, 3]]" "[Action (1, 0) (0, 0), Action (1, 0) (1, 1)]"
      "Action (1, 0) (1, 1)" "[[1, 2], [0, 3]]" "[[1, 2], [3, 0]]" "[[[1, 2], [0, 3]], [[1, 2], [3, 0]]]"]
    i a m s
  have "\<forall>c \<in> set [[[1, 2], [0, 3]], [[1, 2], [3, 0]]]. invariant 2 c"
    and "\<exists>c'. do_action [[1, 2], [0, 3]] (Action (1, 0) (1, 1)) = Inr c' \<and> invariant 2 c'"
    by blast+
  with i a m s show ?thesis by simp
qed

text \<open>
  C3. \<^verbatim>\<open>solve_puzzle\<close> returns \<^verbatim>\<open>None\<close> exactly when its passes lead from the initial
  frontier to the empty frontier; a pass that goes on has popped a configuration that is
  not the goal. A returned path is never empty, so \<^verbatim>\<open>None\<close> differs from every returned
  path, also under the truth test of the caller, and also from the one-element path
  returned when the start is the goal.
\<close>

theorem solve_puzzle_exhausted:
  "(solve_puzzle N start goal = Inr None \<longleftrightarrow>
      (\<exists>visited. passes N goal ([(0, start, [start], 0)], {}) ([], visited))) \<and>
   (\<forall>frontier visited frontier' visited'.
      iteration N goal frontier visited = Inr (Continue frontier' visited') \<longrightarrow>
      (\<exists>f cur path g rest. heappop frontier = Inr ((f, cur, path, g), rest) \<and>
         \<not> array_equal cur goal)) \<and>
   (\<forall>path. solve_puzzle N start goal = Inr (Some path) \<longrightarrow>
      path \<noteq> [] \<and> solve_puzzle N start goal \<noteq> Inr None)"
proof (intro conjI allI impI)
  show "solve_puzzle N start goal = Inr None \<longleftrightarrow>
      (\<exists>visited. passes N goal ([(0, start, [start], 0)], {}) ([], visited))"
    using search_loop_None_passes[of N goal "[(0, start, [start], 0)]" "{}"]
      passes_search_loop_None[of N goal "([(0, start, [start], 0)], {})"]
    by (auto simp: solve_puzzle_eq)
next
  fix frontier visited frontier' visited'
  assume "iteration N goal frontier visited = Inr (Continue frontier' visited')"
  from iteration_Continue[OF this]
  show "\<exists>f cur path g rest. heappop frontier = Inr ((f, cur, path, g), rest) \<and>
         \<not> array_equal cur goal" by blast
next
  fix path
  assume s: "solve_puzzle N start goal = Inr (Some path)"
  then have run: "search_loop N goal [(0, start, [start], 0)] {} = Inr (Some path)"
    by (simp add: solve_puzzle_eq)
  have "\<exists>f g. node_ok N start (f, goal, path, g)"
  proof (rule search_loop_invariant[OF run])
    show "\<forall>n \<in> set [(0, start, [start], 0)]. node_ok N start n"
      by (simp add: node_ok_def)
  next
    fix f cur path g acts act t h
    assume "node_ok N start (f, cur, path, g)" "available_actions N cur = Inr acts" "act \<in> set acts"
      "do_action cur act = Inr t"
    then show "node_ok N start (int64_add (g + 1) h, t, path @ [t], g + 1)"
      by (auto simp: node_ok_def valid_step_def intro!: moves_chain_snoc)
  qed
  then show "path \<noteq> []" by (simp add: node_ok_def)
  show "solve_puzzle N start goal \<noteq> Inr None" using s by simp
qed

theorem solve_puzzle_exhausted_witness:
  "solve_puzzle 1 [[0]] [[1]] = Inr None \<and>
   (\<exists>visited. passes 1 [[1]] ([(0, [[0]], [[[0]]], 0)], {}) ([], visited)) \<and>
   iteration 1 [[1]] [(0, [[0]], [[[0]]], 0)] {} = Inr (Continue [] {[0]}) \<and>
   (\<exists>f cur path g rest. heappop [(0, [[0]], [[[0]]], 0)] = Inr ((f, cur, path, g), rest) \<and>
      \<not> array_equal cur [[1]]) \<and>
   solve_puzzle 2 [[1, 2], [0, 3]] [[1, 2], [3, 0]] = Inr (Some [[[1, 2], [0, 3]], [[1, 2], [3, 0]]]) \<and>
   solve_puzzle 2 [[1, 2], [0, 3]] [[1, 2], [3, 0]] \<noteq> Inr None"
proof -
  have n: "solve_puzzle 1 [[0]] [[1]] = Inr None"
    by code_simp
  have i: "iteration 1 [[1]] [(0, [[0]], [[[0]]], 0)] {} = Inr (Continue [] {[0]})"
    by code_simp
  have s: "solve_puzzle 2 [[1, 2], [0, 3]] [[1, 2], [3, 0]] = Inr (Some [[[1, 2], [0, 3]], [[1, 2], [3, 0]]])"
    by code_simp
  from solve_puzzle_exhausted[of 1 "[[0]]" "[[1]]"] n i
  have 1: "\<exists>visited. passes 1 [[1]] ([(0, [[0]], [[[0]]], 0)], {}) ([], visited)"
    and 2: "\<exists>f cur path g rest. heappop [(0, [[0]], [[[0]]], 0)] = Inr ((f, cur, path, g), rest) \<and>
      \<not> array_equal cur [[1]]"
    by blast+
  from solve_puzzle_exhausted[of 2 "[[1, 2], [0, 3]]" "[[1, 2], [3, 0]]"] s
  have 3: "solve_puzzle 2 [[1, 2], [0, 3]] [[1, 2], [3, 0]] \<noteq> Inr None"
    by blast
  from n 1 i 2 s 3 show ?thesis by blast
qed

text \<open>
  C9. \<^verbatim>\<open>solve_puzzle\<close> enters the loop with the frontier that holds the single node
  \<open>(0, start, [start], 0)\<close>, whose \<open>f\<close> is 0 whatever the heuristic of the start is, and
  with the empty visited set. A pass that goes on either pushes nothing (\<^verbatim>\<open>continue\<close>) or
  pushes, after the nodes left by the pop, one node per available move, with \<open>g\<close> one
  more than the popped node's, \<open>f = g + heuristic(child, goal)\<close> and the popped path
  extended by the child. Hence every node of every frontier of the run is the start node
  or has \<open>f = g + heuristic(state, goal)\<close>. The sum is numpy's, which is the sum of the
  integers whenever that fits in 64 bits.
\<close>

theorem solve_puzzle_nodes:
  "solve_puzzle_init start = ([(0, start, [start], 0)], {}) \<and>
   solve_puzzle N start goal =
     search_loop N goal (fst (solve_puzzle_init start)) (snd (solve_puzzle_init start)) \<and>
   (iteration N goal frontier visited = Inr (Continue frontier' visited') \<longrightarrow>
      (\<exists>f cur path g rest. heappop frontier = Inr ((f, cur, path, g), rest) \<and>
         (frontier' = rest \<and> visited' = visited \<or>
          (\<exists>acts children. available_actions N cur = Inr acts \<and> frontier' = rest @ children \<and>
             list_all2 (\<lambda>act n. \<exists>new_state h. do_action cur act = Inr new_state \<and>
                 heuristic N new_state goal = Inr h \<and>
                 n = (int64_add (g + 1) h, new_state, path @ [new_state], g + 1)) acts children)))) \<and>
   (passes N goal (solve_puzzle_init start) (fr, vis) \<longrightarrow>
      (\<forall>n \<in> set fr. n = (0, start, [start], 0) \<or> pushed_cost N goal n)) \<and>
   (- (2 ^ 63) \<le> a + b \<and> a + b < 2 ^ 63 \<longrightarrow> int64_add a b = a + b)"
proof (intro conjI impI)
  show init: "solve_puzzle_init start = ([(0, start, [start], 0)], {})"
    by (simp add: solve_puzzle_init_def heappush_def)
  show "solve_puzzle N start goal =
     search_loop N goal (fst (solve_puzzle_init start)) (snd (solve_puzzle_init start))"
    by (simp add: solve_puzzle_def split: prod.splits)
  show "\<forall>n \<in> set fr. n = (0, start, [start], 0) \<or> pushed_cost N goal n"
    if "passes N goal (solve_puzzle_init start) (fr, vis)"
    using passes_invariant[OF that, where Q = "\<lambda>n. n = (0, start, [start], 0) \<or> pushed_cost N goal n"]
    by (simp add: init pushed_cost_def)
  show "int64_add a b = a + b" if "- (2 ^ 63) \<le> a + b \<and> a + b < 2 ^ 63"
    using that by (simp add: int64_add_def wrap64_id)
next
  assume "iteration N goal frontier visited = Inr (Continue frontier' visited')"
  from iteration_Continue[OF this] obtain f cur path g rest where
    pop: "heappop frontier = Inr ((f, cur, path, g), rest)" and
    cases: "tobytes cur \<in> visited \<and> frontier' = rest \<and> visited' = visited \<or>
            tobytes cur \<notin> visited \<and> visited' = insert (tobytes cur) visited \<and>
            (\<exists>acts. available_actions N cur = Inr acts \<and>
               for_each (expand_one N goal cur path g) acts rest = Inr frontier')" by blast
  from cases have "frontier' = rest \<and> visited' = visited \<or>
          (\<exists>acts children. available_actions N cur = Inr acts \<and> frontier' = rest @ children \<and>
             list_all2 (\<lambda>act n. \<exists>new_state h. do_action cur act = Inr new_state \<and>
                 heuristic N new_state goal = Inr h \<and>
                 n = (int64_add (g + 1) h, new_state, path @ [new_state], g + 1)) acts children)"
  proof (elim disjE conjE exE)
    assume "frontier' = rest" "visited' = visited"
    then show ?thesis by simp
  next
    fix acts
    assume a: "available_actions N cur = Inr acts"
      and e: "for_each (expand_one N goal cur path g) acts rest = Inr frontier'"
    from e obtain ch where ch: "for_each (expand_one N goal cur path g) acts [] = Inr ch"
      "frontier' = rest @ ch"
      by (subst (asm) for_each_expand_append) (auto split: sum.splits)
    from for_each_expand_children[OF ch(1)] a ch(2) show ?thesis by blast
  qed
  with pop show "\<exists>f cur path g rest. heappop frontier = Inr ((f, cur, path, g), rest) \<and>
         (frontier' = rest \<and> visited' = visited \<or>
          (\<exists>acts children. available_actions N cur = Inr acts \<and> frontier' = rest @ children \<and>
             list_all2 (\<lambda>act n. \<exists>new_state h. do_action cur act = Inr new_state \<and>
                 heuristic N new_state goal = Inr h \<and>
                 n = (int64_add (g + 1) h, new_state, path @ [new_state], g + 1)) acts children))"
    by blast
qed


theorem solve_puzzle_nodes_witness:
  "solve_puzzle_init [[1, 2], [0, 3]] = ([(0, [[1, 2], [0, 3]], [[[1, 2], [0, 3]]], 0)], {}) \<and>
   heuristic 2 [[1, 2], [0, 3]] [[1, 2], [3, 0]] = Inr 3 \<and>
   iteration 2 [[1, 2], [3, 0]] (fst (solve_puzzle_init [[1, 2], [0, 3]]))
       (snd (solve_puzzle_init [[1, 2], [0, 3]])) =
     Inr (Continue [(7, [[0, 2], [1, 3]], [[[1, 2], [0, 3]], [[0, 2], [1, 3]]], 1),
                    (1, [[1, 2], [3, 0]], [[[1, 2], [0, 3]], [[1, 2], [3, 0]]], 1)] {[1, 2, 0, 3]}) \<and>
   (\<exists>f cur path g rest.
      heappop (fst (solve_puzzle_init [[1, 2], [0, 3]])) = Inr ((f, cur, path, g), rest) \<and>
      (\<exists>acts children. available_actions 2 cur = Inr acts \<and>
         [(7, [[0, 2], [1, 3]], [[[1, 2], [0, 3]], [[0, 2], [1, 3]]], 1),
          (1, [[1, 2], [3, 0]], [[[1, 2], [0, 3]], [[1, 2], [3, 0]]], 1)] = rest @ children \<and>
         list_all2 (\<lambda>act n. \<exists>new_state h. do_action cur act = Inr new_state \<and>
             heuristic 2 new_state [[1, 2], [3, 0]] = Inr h \<and>
             n = (int64_add (g + 1) h, new_state, path @ [new_state], g + 1)) acts children)) \<and>
   passes 2 [[1, 2], [3, 0]] (solve_puzzle_init [[1, 2], [0, 3]])
     ([(7, [[0, 2], [1, 3]], [[[1, 2], [0, 3]], [[0, 2], [1, 3]]], 1),
       (1, [[1, 2], [3, 0]], [[[1, 2], [0, 3]], [[1, 2], [3, 0]]], 1)], {[1, 2, 0, 3]}) \<and>
   pushed_cost 2 [[1, 2], [3, 0]] (7, [[0, 2], [1, 3]], [[[1, 2], [0, 3]], [[0, 2], [1, 3]]], 1) \<and>
   int64_add 1 6 = 1 + 6"
  (is "?I \<and> ?H \<and> ?S \<and> ?P \<and> ?R \<and> ?C \<and> ?A")
proof -
  note t = solve_puzzle_nodes[of "[[1, 2], [0, 3]]" 2 "[[1, 2], [3, 0]]"
      "fst (solve_puzzle_init [[1, 2], [0, 3]])" "snd (solve_puzzle_init [[1, 2], [0, 3]])"
      "[(7, [[0, 2], [1, 3]], [[[1, 2], [0, 3]], [[0, 2], [1, 3]]], 1),
        (1, [[1, 2], [3, 0]], [[[1, 2], [0, 3]], [[1, 2], [3, 0]]], 1)]" "{[1, 2, 0, 3]}"
      "[(7, [[0, 2], [1, 3]], [[[1, 2], [0, 3]], [[0, 2], [1, 3]]], 1),
        (1, [[1, 2], [3, 0]], [[[1, 2], [0, 3]], [[1, 2], [3, 0]]], 1)]" "{[1, 2, 0, 3]}" 1 6]
  have i: ?I
    by (rule t[THEN conjunct1])
  have h: ?H
    by code_simp
  have s: ?S
    by code_simp
  have v: "{[1, 2, 0, 3]} \<noteq> snd (solve_puzzle_init [[1, 2], [0, 3]])"
    by (simp add: i)
  from t[THEN conjunct2, THEN conjunct2, THEN conjunct1, THEN mp, OF s] v
  have p: ?P
    by blast
  have r: ?R
    using passes_step[OF s[unfolded surjective_pairing[symmetric]] passes_refl]
    by simp
  from t[THEN conjunct2, THEN conjunct2, THEN conjunct2, THEN conjunct1, THEN mp, OF r]
  have "((7, [[0, 2], [1, 3]], [[[1, 2], [0, 3]], [[0, 2], [1, 3]]], 1) :: node) =
        (0, [[1, 2], [0, 3]], [[[1, 2], [0, 3]]], 0) \<or> ?C"
    by (rule bspec) simp
  then have c: ?C
    by simp
  have a: ?A
    by (rule t[THEN conjunct2, THEN conjunct2, THEN conjunct2, THEN conjunct2, THEN mp]) simp
  from i h s p r c a show ?thesis
    by (intro conjI)
qed


text \<open>
  C10. \<^verbatim>\<open>solve_puzzle\<close> is deterministic. Taken as a relation, with the arrangement of the
  heap and the choice among least nodes left open at every push and pop, the run has
  exactly one result for every start and goal, the one \<^verbatim>\<open>solve_puzzle\<close> computes: any two
  runs return the same path or both \<^verbatim>\<open>None\<close> (or raise the same error). The reason is
  the one the claim gives: the node tuples are compared by \<open>f\<close>, then the configuration,
  then the path, then \<open>g\<close>, a linear order, so two pops from one frontier return the
  same node and leave the same nodes.
\<close>

theorem solve_puzzle_deterministic:
  "(solve_puzzle_rel N start goal r \<longleftrightarrow> r = solve_puzzle N start goal) \<and>
   (solve_puzzle_rel N start goal r \<and> solve_puzzle_rel N start goal r' \<longrightarrow> r = r') \<and>
   (is_heappop frontier n rest \<and> is_heappop frontier n' rest' \<longrightarrow>
      n = n' \<and> mset rest = mset rest') \<and>
   (((f, c, p, g) :: node) \<le> (f', c', p', g') \<longleftrightarrow>
      f < f' \<or> f = f' \<and> (c < c' \<or> c = c' \<and> (p < p' \<or> p = p' \<and> g \<le> g')))"
proof -
  have init: "is_heappush [] (0, start, [start], 0) fr \<longleftrightarrow> fr = [(0, start, [start], 0)]" for fr
    by (auto simp: is_heappush_def)
  have rel: "solve_puzzle_rel N start goal r \<longleftrightarrow> r = solve_puzzle N start goal" for r
    using searches_sound[of N goal "[(0, start, [start], 0)]" "{}" r]
      searches_complete[of N goal "[(0, start, [start], 0)]" "{}"]
    by (auto simp: solve_puzzle_rel_def init solve_puzzle_eq)
  have pop: "n = n' \<and> mset rest = mset rest'"
    if "is_heappop frontier n rest \<and> is_heappop frontier n' rest'"
  proof -
    from that have "n \<le> n'" "n' \<le> n"
      by (auto simp: is_heappop_def)
    then have "n = n'" by (rule order_antisym)
    with that show ?thesis by (simp add: is_heappop_def)
  qed
  have ord: "((f, c, p, g) :: node) \<le> (f', c', p', g') \<longleftrightarrow>
      f < f' \<or> f = f' \<and> (c < c' \<or> c = c' \<and> (p < p' \<or> p = p' \<and> g \<le> g'))"
    by (auto simp: less_eq_prod_def less_prod_def)
  from rel[of r] rel[of r'] pop ord show ?thesis
    by (intro conjI impI) simp_all
qed


theorem solve_puzzle_deterministic_witness:
  "solve_puzzle_rel 2 [[1, 2], [0, 3]] [[1, 2], [3, 0]] (Inr (Some [[[1, 2], [0, 3]], [[1, 2], [3, 0]]])) \<and>
   solve_puzzle 2 [[1, 2], [0, 3]] [[1, 2], [3, 0]] = Inr (Some [[[1, 2], [0, 3]], [[1, 2], [3, 0]]]) \<and>
   \<not> solve_puzzle_rel 2 [[1, 2], [0, 3]] [[1, 2], [3, 0]] (Inr None) \<and>
   is_heappop [(7, [[0, 2], [1, 3]], [[[1, 2], [0, 3]], [[0, 2], [1, 3]]], 1),
               (1, [[1, 2], [3, 0]], [[[1, 2], [0, 3]], [[1, 2], [3, 0]]], 1)]
     (1, [[1, 2], [3, 0]], [[[1, 2], [0, 3]], [[1, 2], [3, 0]]], 1)
     [(7, [[0, 2], [1, 3]], [[[1, 2], [0, 3]], [[0, 2], [1, 3]]], 1)]"
  (is "?R \<and> ?S \<and> ?N \<and> ?P")
proof -
  have s: ?S
    by code_simp
  note t = solve_puzzle_deterministic[of 2 "[[1, 2], [0, 3]]" "[[1, 2], [3, 0]]"]
  from t[of "Inr (Some [[[1, 2], [0, 3]], [[1, 2], [3, 0]]])", THEN conjunct1] s
  have r: ?R
    by simp
  from t[of "Inr None", THEN conjunct1] s
  have n: ?N
    by simp
  have p: ?P
    by (simp add: is_heappop_def less_eq_prod_def less_prod_def)
  from r s n p show ?thesis
    by (intro conjI)
qed

end
